theory Spec2Isabelle
  imports
    Main
    "HOL-Library.Char_ord"
    "HOL-Library.List_Lexorder"
    "HOL-Library.Product_Lexorder"
    "HOL-Library.Multiset"
begin

section \<open>Data model\<close>

text \<open>
  The import parser of \<^verbatim>\<open>packages/core/src/import-parser/index.ts\<close> works on the
  definition nodes of parsed GraphQL documents. The nodes are JavaScript objects that
  are shared between the per-document arrays and are edited in place, so they live in
  an explicit store: a reference is a natural number and the store maps every
  reference to the node it currently holds.

  A node's \<^verbatim>\<open>name\<close> slot has three states, because the code tests \<^verbatim>\<open>'name' in def\<close>
  and then reads \<^verbatim>\<open>def.name.value\<close>: the key can be missing (a schema definition),
  present with the value \<^verbatim>\<open>undefined\<close> (the AST type is \<^verbatim>\<open>name?: NameNode\<close>; the
  parser writes \<^verbatim>\<open>name: undefined\<close> for an anonymous operation), or present with a name.

  An entry of a \<^verbatim>\<open>fields\<close> array is a field node or \<^verbatim>\<open>undefined\<close> (\<open>None\<close>): the merge
  loop of \<^verbatim>\<open>processImportSyntax\<close> can append \<^verbatim>\<open>undefined\<close> to such an array.
  \<open>field_nodes = None\<close> means that the node has no \<^verbatim>\<open>fields\<close> key.

  Strings are lists of characters with codes below 256.
\<close>

datatype name_slot = NameAbsent | NameUndefined | NameNode string

record field_node =
  fname :: string
  fkind :: string
  ftype :: string

record definition_node =
  kind :: string
  name :: name_slot
  field_nodes :: "field_node option list option"

type_synonym ref = nat

type_synonym heap = "ref \<Rightarrow> definition_node"

record RawModule =
  m_imports :: "string list"
  m_from :: string

datatype error =
  TypeError
  | ImportError string
  | ExternalError string

section \<open>JavaScript and lodash primitives\<close>

text \<open>\<^verbatim>\<open>xs[i]\<close>: \<^verbatim>\<open>undefined\<close> (\<open>None\<close>) out of range.\<close>

definition at_index :: "'a list \<Rightarrow> nat \<Rightarrow> 'a option" where
  "at_index xs i = (if i < length xs then Some (xs ! i) else None)"

text \<open>\<^verbatim>\<open>s.split(c)\<close> for a one-character separator: never empty.\<close>

fun split_on :: "char \<Rightarrow> string \<Rightarrow> string list" where
  "split_on c [] = [[]]"
| "split_on c (x # xs) =
     (if x = c then [] # split_on c xs
      else (case split_on c xs of
              [] \<Rightarrow> [[x]]
            | y # ys \<Rightarrow> (x # y) # ys))"

text \<open>
  \<^verbatim>\<open>Array.prototype.filter\<close> and \<^verbatim>\<open>find\<close> with a callback that can throw: the callback
  runs on the elements in order and the first exception ends the call.
\<close>

fun filterE :: "('a \<Rightarrow> error + bool) \<Rightarrow> 'a list \<Rightarrow> error + 'a list" where
  "filterE p [] = Inr []"
| "filterE p (x # xs) =
     (case p x of
        Inl e \<Rightarrow> Inl e
      | Inr b \<Rightarrow>
          (case filterE p xs of
             Inl e \<Rightarrow> Inl e
           | Inr ys \<Rightarrow> Inr (if b then x # ys else ys)))"

fun findE :: "('a \<Rightarrow> error + bool) \<Rightarrow> 'a list \<Rightarrow> error + 'a option" where
  "findE p [] = Inr None"
| "findE p (x # xs) =
     (case p x of
        Inl e \<Rightarrow> Inl e
      | Inr b \<Rightarrow> if b then Inr (Some x) else findE p xs)"

text \<open>
  lodash \<^verbatim>\<open>uniqBy\<close> (\<^verbatim>\<open>baseUniq\<close>): walk the array with the list of keys seen so far
  and keep an element when its key is new, so the first element of every key stays.
\<close>

fun baseUniq :: "('a \<Rightarrow> 'k) \<Rightarrow> 'k list \<Rightarrow> 'a list \<Rightarrow> 'a list" where
  "baseUniq f seen [] = []"
| "baseUniq f seen (x # xs) =
     (if f x \<in> set seen then baseUniq f seen xs
      else x # baseUniq f (f x # seen) xs)"

definition uniqBy :: "('a \<Rightarrow> 'k) \<Rightarrow> 'a list \<Rightarrow> 'a list" where
  "uniqBy f xs = baseUniq f [] xs"

text \<open>
  lodash \<^verbatim>\<open>groupBy\<close>: an object whose keys are the distinct keys of the elements in the
  order of their first occurrence, each holding its elements in order.
\<close>

definition groupBy :: "('a \<Rightarrow> string) \<Rightarrow> 'a list \<Rightarrow> (string \<times> 'a list) list" where
  "groupBy f xs = map (\<lambda>k. (k, filter (\<lambda>x. f x = k) xs)) (uniqBy id (map f xs))"

text \<open>
  lodash \<^verbatim>\<open>keyBy\<close>: a plain object, a later element replacing an earlier one of the
  same key. A property read on a plain object that misses the object's own keys goes
  on to \<^verbatim>\<open>Object.prototype\<close>, whose members all hold truthy values.
\<close>

definition keyBy :: "('a \<Rightarrow> string) \<Rightarrow> 'a list \<Rightarrow> (string \<rightharpoonup> 'a)" where
  "keyBy f xs = fold (\<lambda>x m. m(f x \<mapsto> x)) xs Map.empty"

definition objectPrototypeKeys :: "string list" where
  "objectPrototypeKeys =
     [''constructor'', ''__defineGetter__'', ''__defineSetter__'', ''hasOwnProperty'',
      ''__lookupGetter__'', ''__lookupSetter__'', ''isPrototypeOf'',
      ''propertyIsEnumerable'', ''toString'', ''valueOf'', ''__proto__'',
      ''toLocaleString'']"

definition truthy_lookup :: "(string \<rightharpoonup> 'a) \<Rightarrow> string \<Rightarrow> bool" where
  "truthy_lookup obj k = (obj k \<noteq> None \<or> k \<in> set objectPrototypeKeys)"

subsection \<open>Sorting field lists\<close>

text \<open>
  Modelled from the spec: \<^verbatim>\<open>compareNodes\<close> of \<^verbatim>\<open>@graphql-toolkit/common\<close> is not among
  the sources; the spec calls it the shared node-comparison rule, "by name, ties
  broken by kind". Strings compare as in JavaScript, code unit by code unit.
\<close>

definition compareStrings :: "string \<Rightarrow> string \<Rightarrow> int" where
  "compareStrings a b = (if a < b then - 1 else if b < a then 1 else 0)"

definition compareNodes :: "field_node \<Rightarrow> field_node \<Rightarrow> int" where
  "compareNodes a b =
     (if fname a \<noteq> fname b then compareStrings (fname a) (fname b)
      else compareStrings (fkind a) (fkind b))"

text \<open>
  \<^verbatim>\<open>Array.prototype.sort(cmp)\<close>: a stable sort by the comparator that moves every
  \<^verbatim>\<open>undefined\<close> entry to the end without calling the comparator.
\<close>

fun insort_cmp :: "('a \<Rightarrow> 'a \<Rightarrow> int) \<Rightarrow> 'a \<Rightarrow> 'a list \<Rightarrow> 'a list" where
  "insort_cmp cmp x [] = [x]"
| "insort_cmp cmp x (y # ys) =
     (if cmp x y \<le> 0 then x # y # ys else y # insort_cmp cmp x ys)"

definition sort_cmp :: "('a \<Rightarrow> 'a \<Rightarrow> int) \<Rightarrow> 'a list \<Rightarrow> 'a list" where
  "sort_cmp cmp xs = foldr (insort_cmp cmp) xs []"

fun defined_entries :: "'a option list \<Rightarrow> 'a list" where
  "defined_entries [] = []"
| "defined_entries (None # xs) = defined_entries xs"
| "defined_entries (Some x # xs) = x # defined_entries xs"

definition array_sort :: "('a \<Rightarrow> 'a \<Rightarrow> int) \<Rightarrow> 'a option list \<Rightarrow> 'a option list" where
  "array_sort cmp xs =
     map Some (sort_cmp cmp (defined_entries xs)) @ filter (\<lambda>x. x = None) xs"

section \<open>The definition projector: \<^verbatim>\<open>filterImportedDefinitions\<close>\<close>

definition rootFields :: "string list" where
  "rootFields = [''Query'', ''Mutation'', ''Subscription'']"

text \<open>Line 241: \<^verbatim>\<open>'name' in def && !rootFields.includes(def.name.value)\<close>.\<close>

definition named_non_root :: "heap \<Rightarrow> ref \<Rightarrow> error + bool" where
  "named_non_root h r =
     (case name (h r) of
        NameAbsent \<Rightarrow> Inr False
      | NameUndefined \<Rightarrow> Inl TypeError
      | NameNode n \<Rightarrow> Inr (n \<notin> set rootFields))"

text \<open>Line 242, the key of a definition that passed the test of line 241.\<close>

definition name_key :: "heap \<Rightarrow> ref \<Rightarrow> string" where
  "name_key h r = (case name (h r) of NameNode n \<Rightarrow> n | _ \<Rightarrow> ''false'')"

text \<open>
  Line 244: \<^verbatim>\<open>typeDef.kind === 'ObjectTypeDefinition' && previousTypeDefinitions[typeDef.name.value]\<close>.
\<close>

definition seen_object_type :: "heap \<Rightarrow> (string \<rightharpoonup> ref) \<Rightarrow> ref \<Rightarrow> error + bool" where
  "seen_object_type h previousTypeDefinitions r =
     (if kind (h r) = ''ObjectTypeDefinition'' then
        (case name (h r) of
           NameNode n \<Rightarrow> Inr (truthy_lookup previousTypeDefinitions n)
         | _ \<Rightarrow> Inl TypeError)
      else Inr False)"

text \<open>Lines 249 and 255: \<^verbatim>\<open>'name' in d && p(d.name.value)\<close>.\<close>

definition named_with :: "heap \<Rightarrow> (string \<Rightarrow> bool) \<Rightarrow> ref \<Rightarrow> error + bool" where
  "named_with h p r =
     (case name (h r) of
        NameAbsent \<Rightarrow> Inr False
      | NameUndefined \<Rightarrow> Inl TypeError
      | NameNode n \<Rightarrow> Inr (p n))"

text \<open>\<^verbatim>\<open>i.split('.')[k]\<close>, and the same as a property key (\<^verbatim>\<open>undefined\<close> prints itself).\<close>

definition segment :: "nat \<Rightarrow> string \<Rightarrow> string option" where
  "segment k i = at_index (split_on (CHR ''.'') i) k"

definition segment_key :: "string \<Rightarrow> string" where
  "segment_key i = (case segment 0 i of Some s \<Rightarrow> s | None \<Rightarrow> ''undefined'')"

text \<open>Line 258: \<^verbatim>\<open>fields.includes(f.name.value) || fields.includes('*')\<close>.\<close>

definition field_requested :: "string option list \<Rightarrow> field_node option \<Rightarrow> error + bool" where
  "field_requested requested f =
     (case f of
        None \<Rightarrow> Inl TypeError
      | Some fd \<Rightarrow> Inr (Some (fname fd) \<in> set requested \<or> Some ''*'' \<in> set requested))"

text \<open>
  Lines 254 to 262, the body of the loop over the owning types: the first definition
  of the document that carries the owning type's name gets its field list replaced.
\<close>

definition project_fields ::
  "bool \<Rightarrow> ref list \<Rightarrow> heap \<Rightarrow> string \<times> string list \<Rightarrow> error + heap" where
  "project_fields srt filteredDefinitions h g =
     (let rootType = fst g;
          requested = map (segment 1) (snd g)
      in case findE (named_with h (\<lambda>n. n = rootType)) filteredDefinitions of
           Inl e \<Rightarrow> Inl e
         | Inr None \<Rightarrow> Inr h
         | Inr (Some r) \<Rightarrow>
             (case field_nodes (h r) of
                None \<Rightarrow> Inr h
              | Some fs \<Rightarrow>
                  if Some ''*'' \<in> set requested then Inr h
                  else
                    (case filterE (field_requested requested) fs of
                       Inl e \<Rightarrow> Inl e
                     | Inr kept \<Rightarrow>
                         Inr (h(r := (h r)\<lparr>field_nodes :=
                                Some (if srt then array_sort compareNodes kept else kept)\<rparr>)))))"

fun project_all ::
  "bool \<Rightarrow> ref list \<Rightarrow> heap \<Rightarrow> (string \<times> string list) list \<Rightarrow> error + heap" where
  "project_all srt filteredDefinitions h [] = Inr h"
| "project_all srt filteredDefinitions h (g # gs) =
     (case project_fields srt filteredDefinitions h g of
        Inl e \<Rightarrow> Inl e
      | Inr h' \<Rightarrow> project_all srt filteredDefinitions h' gs)"

text \<open>
  \<^verbatim>\<open>filterImportedDefinitions(imports, typeDefinitions, allDefinitions, sort)\<close>, lines
  233 to 267. The result is the returned array of references and the store after the
  in-place edits.
\<close>

definition filterImportedDefinitions ::
  "string list \<Rightarrow> ref list \<Rightarrow> ref list list \<Rightarrow> bool \<Rightarrow> heap \<Rightarrow> error + (ref list \<times> heap)" where
  "filterImportedDefinitions imports typeDefinitions allDefinitions srt h =
     (if ''*'' \<in> set imports then
        if length imports = 1 \<and> at_index imports 0 = Some ''*'' \<and> length allDefinitions > 1 then
          (case filterE (named_non_root h) (concat (take (length allDefinitions - 1) allDefinitions)) of
             Inl e \<Rightarrow> Inl e
           | Inr previous \<Rightarrow>
               (case filterE (seen_object_type h (keyBy (name_key h) previous)) typeDefinitions of
                  Inl e \<Rightarrow> Inl e
                | Inr res \<Rightarrow> Inr (res, h)))
        else Inr (typeDefinitions, h)
      else
        (let importedTypes = map (segment 0) imports
         in case filterE (named_with h (\<lambda>n. Some n \<in> set importedTypes)) typeDefinitions of
              Inl e \<Rightarrow> Inl e
            | Inr res \<Rightarrow>
                (let fieldImports = filter (\<lambda>i. length (split_on (CHR ''.'') i) > 1) imports;
                     groupedFieldImports = groupBy segment_key fieldImports
                 in case project_all srt typeDefinitions h groupedFieldImports of
                      Inl e \<Rightarrow> Inl e
                    | Inr h' \<Rightarrow> Inr (res, h'))))"

section \<open>Facts about the primitives\<close>

lemma filterE_Inr:
  assumes "\<And>x. x \<in> set xs \<Longrightarrow> p x = Inr (q x)"
  shows "filterE p xs = Inr (filter q xs)"
  using assms by (induction xs) auto

lemma findE_Inr:
  assumes "\<And>x. x \<in> set xs \<Longrightarrow> p x = Inr (q x)"
  shows "findE p xs = Inr (List.find q xs)"
  using assms by (induction xs) auto

text \<open>The comparator orders field nodes by the pair of name and kind.\<close>

definition node_key :: "field_node \<Rightarrow> string \<times> string" where
  "node_key f = (fname f, fkind f)"

lemma compareStrings_le: "compareStrings a b \<le> 0 \<longleftrightarrow> a \<le> b"
  by (auto simp: compareStrings_def)

lemma compareNodes_le: "compareNodes a b \<le> 0 \<longleftrightarrow> node_key a \<le> node_key b"
  by (auto simp: compareNodes_def node_key_def compareStrings_le)

lemma insort_cmp_compareNodes: "insort_cmp compareNodes x ys = insort_key node_key x ys"
  by (induction ys) (simp_all add: compareNodes_le)

lemma sort_cmp_compareNodes: "sort_cmp compareNodes xs = sort_key node_key xs"
  by (induction xs) (simp_all add: sort_cmp_def insort_cmp_compareNodes)

lemma sorted_sort_cmp: "sorted_wrt (\<lambda>a b. compareNodes a b \<le> 0) (sort_cmp compareNodes xs)"
proof -
  have "sorted (map node_key (sort_key node_key xs))"
    by (rule sorted_sort_key)
  then show ?thesis
    by (simp add: sorted_map sort_cmp_compareNodes compareNodes_le)
qed

lemma set_sort_cmp: "set (sort_cmp compareNodes xs) = set xs"
  by (simp add: sort_cmp_compareNodes)

lemma set_defined_entries: "set (defined_entries xs) = {x. Some x \<in> set xs}"
  by (induction xs rule: defined_entries.induct) auto

lemma map_Some_defined_entries: "None \<notin> set xs \<Longrightarrow> map Some (defined_entries xs) = xs"
  by (induction xs rule: defined_entries.induct) auto

lemma array_sort_defined:
  assumes "None \<notin> set xs"
  shows "array_sort cmp xs = map Some (sort_cmp cmp (defined_entries xs))"
proof -
  have "filter (\<lambda>x. x = None) xs = []"
  proof (rule filter_False, rule ballI)
    fix x assume "x \<in> set xs"
    with assms show "\<not> x = None" by metis
  qed
  then show ?thesis
    by (simp add: array_sort_def)
qed

subsection \<open>What a selector list asks for\<close>

text \<open>
  The field names requested for an owning type \<open>t\<close>: the second segments of the
  selectors with more than one segment whose first segment is \<open>t\<close>, in order.
\<close>

definition requested_fields :: "string list \<Rightarrow> string \<Rightarrow> string option list" where
  "requested_fields imports t =
     map (segment 1)
       (filter (\<lambda>i. segment_key i = t) (filter (\<lambda>i. length (split_on (CHR ''.'') i) > 1) imports))"

text \<open>The first definition of a document that carries the name \<open>t\<close>.\<close>

definition first_named :: "heap \<Rightarrow> ref list \<Rightarrow> string \<Rightarrow> ref option" where
  "first_named h ds t = List.find (\<lambda>r. name (h r) = NameNode t) ds"

text \<open>
  The field list that is left of \<open>fs\<close> when only the requested field names stay, and
  the node this makes of a definition: unchanged when it has no field list or when
  the field wildcard is among the requested names.
\<close>

definition keep_requested ::
  "bool \<Rightarrow> string option list \<Rightarrow> field_node option list \<Rightarrow> field_node option list" where
  "keep_requested srt requested fs =
     (let kept = filter (\<lambda>f. case f of None \<Rightarrow> False | Some fd \<Rightarrow> Some (fname fd) \<in> set requested) fs
      in if srt then array_sort compareNodes kept else kept)"

definition projected_node :: "bool \<Rightarrow> string option list \<Rightarrow> definition_node \<Rightarrow> definition_node" where
  "projected_node srt requested d =
     (case field_nodes d of
        None \<Rightarrow> d
      | Some fs \<Rightarrow>
          if Some ''*'' \<in> set requested then d
          else d\<lparr>field_nodes := Some (keep_requested srt requested fs)\<rparr>)"

text \<open>
  Well-formed input: no definition of the list has its \<^verbatim>\<open>name\<close> key set to \<^verbatim>\<open>undefined\<close>,
  and no field list of the list holds an \<^verbatim>\<open>undefined\<close> entry.
\<close>

definition well_named :: "heap \<Rightarrow> ref list \<Rightarrow> bool" where
  "well_named h ds = (\<forall>r \<in> set ds. name (h r) \<noteq> NameUndefined)"

definition fields_defined :: "heap \<Rightarrow> ref list \<Rightarrow> bool" where
  "fields_defined h ds = (\<forall>r \<in> set ds. \<forall>fs. field_nodes (h r) = Some fs \<longrightarrow> None \<notin> set fs)"

lemma named_with_Inr:
  assumes "well_named h ds" and "r \<in> set ds"
  shows "named_with h p r = Inr (case name (h r) of NameNode n \<Rightarrow> p n | _ \<Rightarrow> False)"
  using assms by (auto simp: well_named_def named_with_def split: name_slot.splits)

lemma findE_named_with:
  assumes "well_named h ds"
  shows "findE (named_with h (\<lambda>n. n = t)) ds = Inr (first_named h ds t)"
proof -
  have "findE (named_with h (\<lambda>n. n = t)) ds
          = Inr (List.find (\<lambda>r. case name (h r) of NameNode n \<Rightarrow> n = t | _ \<Rightarrow> False) ds)"
    by (rule findE_Inr) (rule named_with_Inr [OF assms])
  moreover have "(\<lambda>r. case name (h r) of NameNode n \<Rightarrow> n = t | _ \<Rightarrow> False)
                   = (\<lambda>r. name (h r) = NameNode t)"
  proof (rule ext)
    fix r show "(case name (h r) of NameNode n \<Rightarrow> n = t | _ \<Rightarrow> False) = (name (h r) = NameNode t)"
      by (cases "name (h r)") auto
  qed
  ultimately show ?thesis
    by (simp add: first_named_def)
qed

lemma filterE_field_requested:
  assumes "None \<notin> set fs" and "Some ''*'' \<notin> set requested"
  shows "filterE (field_requested requested) fs
           = Inr (filter (\<lambda>f. case f of None \<Rightarrow> False | Some fd \<Rightarrow> Some (fname fd) \<in> set requested) fs)"
proof (rule filterE_Inr)
  fix x assume "x \<in> set fs"
  with assms(1) obtain fd where "x = Some fd"
    by (cases x) auto
  with assms(2) show "field_requested requested x
      = Inr (case x of None \<Rightarrow> False | Some fd \<Rightarrow> Some (fname fd) \<in> set requested)"
    by (simp add: field_requested_def)
qed

lemma project_fields_eq:
  assumes "well_named h ds" and "fields_defined h ds"
  shows "project_fields srt ds h (t, g)
           = Inr (case first_named h ds t of
                    None \<Rightarrow> h
                  | Some r \<Rightarrow> h(r := projected_node srt (map (segment 1) g) (h r)))"
proof (cases "first_named h ds t")
  case None
  then show ?thesis
    by (simp add: project_fields_def findE_named_with [OF assms(1)])
next
  case (Some r)
  then have r: "r \<in> set ds"
    by (auto simp: first_named_def find_Some_iff)
  show ?thesis
  proof (cases "field_nodes (h r)")
    case None
    with Some show ?thesis
      by (simp add: project_fields_def findE_named_with [OF assms(1)] projected_node_def)
  next
    case fs: (Some fs)
    with r assms(2) have "None \<notin> set fs"
      by (auto simp: fields_defined_def)
    with Some fs show ?thesis
      by (simp add: project_fields_def findE_named_with [OF assms(1)] projected_node_def
          filterE_field_requested keep_requested_def Let_def)
  qed
qed

lemma baseUniq_seen_cong:
  "set seen = set seen' \<Longrightarrow> baseUniq f seen xs = baseUniq f seen' xs"
proof (induction xs arbitrary: seen seen')
  case Nil
  show ?case by simp
next
  case (Cons x xs)
  from Cons.prems have "set (f x # seen) = set (f x # seen')"
    by simp
  from Cons.IH [OF this] Cons.IH [OF Cons.prems] Cons.prems show ?case
    by simp
qed


lemma baseUniq_keys: "f ` set (baseUniq f seen xs) = f ` set xs - set seen"
  by (induction xs arbitrary: seen) auto

lemma distinct_baseUniq: "distinct (map f (baseUniq f seen xs))"
proof (induction xs arbitrary: seen)
  case Nil
  show ?case by simp
next
  case (Cons x xs)
  have "f x \<notin> f ` set (baseUniq f (f x # seen) xs)"
    by (simp add: baseUniq_keys)
  with Cons.IH show ?case
    by simp
qed


lemma baseUniq_distinct_id:
  assumes "distinct (map f xs)" and "f ` set xs \<inter> set seen = {}"
  shows "baseUniq f seen xs = xs"
  using assms by (induction xs arbitrary: seen) auto

lemma distinct_uniqBy: "distinct (map f (uniqBy f xs))"
  by (simp add: uniqBy_def distinct_baseUniq)

lemma uniqBy_keys: "f ` set (uniqBy f xs) = f ` set xs"
  by (simp add: uniqBy_def baseUniq_keys)


lemma uniqBy_distinct_id: "distinct (map f xs) \<Longrightarrow> uniqBy f xs = xs"
  by (simp add: uniqBy_def baseUniq_distinct_id)

lemma distinct_groupBy_keys: "distinct (map fst (groupBy f xs))"
proof -
  have "map fst (groupBy f xs) = map id (uniqBy id (map f xs))"
    by (simp add: groupBy_def comp_def)
  then show ?thesis
    by (simp only: distinct_uniqBy)
qed

lemma map_of_groupBy:
  "map_of (groupBy f xs) k = (if k \<in> f ` set xs then Some (filter (\<lambda>x. f x = k) xs) else None)"
proof -
  have keys: "set (uniqBy id (map f xs)) = f ` set xs"
    using uniqBy_keys [of id "map f xs"] by simp
  have "map_of (map (\<lambda>k. (k, filter (\<lambda>x. f x = k) xs)) ks) k
          = (if k \<in> set ks then Some (filter (\<lambda>x. f x = k) xs) else None)" for ks
    by (induction ks) auto
  with keys show ?thesis
    by (simp add: groupBy_def)
qed

lemma first_named_name: "first_named h ds t = Some r \<Longrightarrow> name (h r) = NameNode t"
  by (auto simp: first_named_def find_Some_iff)

lemma first_named_cong:
  assumes "\<And>r. name (h' r) = name (h r)"
  shows "first_named h' ds t = first_named h ds t"
  by (simp add: first_named_def assms)

lemma projected_node_name [simp]: "name (projected_node srt req d) = name d"
  by (simp add: projected_node_def split: option.splits)

lemma array_sort_no_None:
  assumes "None \<notin> set xs"
  shows "None \<notin> set (array_sort cmp xs)"
  using assms by (auto simp: array_sort_defined)

lemma keep_requested_no_None: "None \<notin> set (keep_requested srt req fs)"
proof -
  let ?kept = "filter (\<lambda>f. case f of None \<Rightarrow> False | Some fd \<Rightarrow> Some (fname fd) \<in> set req) fs"
  have "None \<notin> set ?kept"
    by auto
  then show ?thesis
    using array_sort_no_None [of ?kept compareNodes]
    by (simp add: keep_requested_def Let_def)
qed

lemma projected_node_defined:
  assumes "\<And>fs. field_nodes d = Some fs \<Longrightarrow> None \<notin> set fs"
  shows "field_nodes (projected_node srt req d) = Some fs \<Longrightarrow> None \<notin> set fs"
  using assms keep_requested_no_None [of srt req]
  by (auto simp: projected_node_def split: option.splits if_splits)

lemma project_all_eq:
  assumes "distinct (map fst gs)" and "well_named h ds" and "fields_defined h ds"
  shows "project_all srt ds h gs
           = Inr (\<lambda>r. case name (h r) of
                         NameNode t \<Rightarrow>
                           if first_named h ds t = Some r then
                             (case map_of gs t of
                                None \<Rightarrow> h r
                              | Some g \<Rightarrow> projected_node srt (map (segment 1) g) (h r))
                           else h r
                       | _ \<Rightarrow> h r)"
  using assms
proof (induction gs arbitrary: h)
  case Nil
  have "(\<lambda>r. case name (h r) of
                NameNode t \<Rightarrow>
                  if first_named h ds t = Some r then
                    (case map_of ([] :: (string \<times> string list) list) t of
                       None \<Rightarrow> h r
                     | Some g \<Rightarrow> projected_node srt (map (segment 1) g) (h r))
                  else h r
              | _ \<Rightarrow> h r) = h"
    by (rule ext) (simp split: name_slot.splits)
  then show ?case
    by simp
next
  case (Cons tg gs)
  obtain t g where tg: "tg = (t, g)"
    by (cases tg)
  define h1 where "h1 = (case first_named h ds t of
                    None \<Rightarrow> h
                  | Some r \<Rightarrow> h(r := projected_node srt (map (segment 1) g) (h r)))"
  have step: "project_fields srt ds h (t, g) = Inr h1"
    unfolding h1_def by (rule project_fields_eq) (fact Cons.prems)+
  have names: "name (h1 r) = name (h r)" for r
    by (simp add: h1_def split: option.splits)
  have wn: "well_named h1 ds"
    using Cons.prems(2) by (simp add: well_named_def names)
  have fd: "fields_defined h1 ds"
    unfolding fields_defined_def
  proof (intro ballI allI impI)
    fix r fs assume r: "r \<in> set ds" and fs: "field_nodes (h1 r) = Some fs"
    from r Cons.prems(3) have old: "\<And>fs. field_nodes (h r) = Some fs \<Longrightarrow> None \<notin> set fs"
      by (auto simp: fields_defined_def)
    show "None \<notin> set fs"
    proof (cases "first_named h ds t = Some r")
      case True
      with fs have "field_nodes (projected_node srt (map (segment 1) g) (h r)) = Some fs"
        by (simp add: h1_def)
      then show ?thesis
        by (rule projected_node_defined [rotated]) (rule old)
    next
      case False
      then have "h1 r = h r"
        by (auto simp: h1_def split: option.splits)
      with fs old show ?thesis
        by simp
    qed
  qed
  have fn: "first_named h1 ds = first_named h ds"
    by (rule ext) (rule first_named_cong, rule names)
  from Cons.prems(1) tg have dist: "distinct (map fst gs)" and t_new: "map_of gs t = None"
    by (auto simp: map_of_eq_None_iff)
  have other: "h1 r = h r" if "first_named h ds t \<noteq> Some r" for r
    using that by (auto simp: h1_def split: option.splits)
  have "(\<lambda>r. case name (h1 r) of
                NameNode t' \<Rightarrow>
                  if first_named h1 ds t' = Some r then
                    (case map_of gs t' of
                       None \<Rightarrow> h1 r
                     | Some g' \<Rightarrow> projected_node srt (map (segment 1) g') (h1 r))
                  else h1 r
              | _ \<Rightarrow> h1 r)
        = (\<lambda>r. case name (h r) of
                NameNode t' \<Rightarrow>
                  if first_named h ds t' = Some r then
                    (case map_of (tg # gs) t' of
                       None \<Rightarrow> h r
                     | Some g' \<Rightarrow> projected_node srt (map (segment 1) g') (h r))
                  else h r
              | _ \<Rightarrow> h r)" (is "?L = ?R")
  proof (rule ext)
    fix r
    show "?L r = ?R r"
    proof (cases "first_named h ds t = Some r")
      case True
      then have "name (h r) = NameNode t"
        by (rule first_named_name)
      with True t_new show ?thesis
        by (simp add: names fn tg h1_def)
    next
      case False
      then have same: "h1 r = h r"
        by (rule other)
      show ?thesis
      proof (cases "name (h r)")
        case (NameNode t')
        with False have "first_named h ds t' = Some r \<Longrightarrow> t' \<noteq> t"
          by auto
        with NameNode show ?thesis
          by (auto simp: names fn tg same split: option.splits)
      qed (simp_all add: names same)
    qed
  qed
  with Cons.IH [OF dist wn fd] step show ?case
    by (simp add: tg)
qed

section \<open>Mixed selector lists\<close>

text \<open>
  C10. A selector list that contains the wildcard \<^verbatim>\<open>*\<close> without being exactly \<^verbatim>\<open>['*']\<close>
  makes the projector return the document's definition sequence as it is, whatever
  the number of documents seen so far, and leaves every definition untouched.
\<close>

theorem mixed_wildcard_returns_document:
  assumes "''*'' \<in> set imports" and "imports \<noteq> [''*'']"
  shows "filterImportedDefinitions imports typeDefinitions allDefinitions srt h
           = Inr (typeDefinitions, h)"
proof -
  have "\<not> (length imports = 1 \<and> at_index imports 0 = Some ''*'')"
  proof
    assume a: "length imports = 1 \<and> at_index imports 0 = Some ''*''"
    then obtain x where x: "imports = [x]"
      by (cases "imports") auto
    with a have "x = ''*''"
      by (simp add: at_index_def)
    with x assms(2) show False
      by simp
  qed
  with assms(1) show ?thesis
    unfolding filterImportedDefinitions_def by auto
qed

theorem mixed_wildcard_returns_document_witness:
  "''*'' \<in> set [''*'', ''Foo''] \<and> [''*'', ''Foo''] \<noteq> [''*''] \<and>
   filterImportedDefinitions [''*'', ''Foo''] [3, 4] [[1, 2], [3, 4]] True
     (\<lambda>_. \<lparr>kind = ''ObjectTypeDefinition'', name = NameNode ''Bar'', field_nodes = Some []\<rparr>)
   = Inr ([3, 4], \<lambda>_. \<lparr>kind = ''ObjectTypeDefinition'', name = NameNode ''Bar'', field_nodes = Some []\<rparr>)"
  using mixed_wildcard_returns_document
    [of "[''*'', ''Foo'']" "[3, 4]" "[[1, 2], [3, 4]]" True
        "\<lambda>_. \<lparr>kind = ''ObjectTypeDefinition'', name = NameNode ''Bar'', field_nodes = Some []\<rparr>"]
  by simp

section \<open>Selecting types and fields\<close>

lemma requested_fields_empty_iff:
  "requested_fields imports t = [] \<longleftrightarrow>
     t \<notin> segment_key ` set (filter (\<lambda>i. length (split_on (CHR ''.'') i) > 1) imports)"
  by (auto simp: requested_fields_def filter_empty_conv)

lemma keep_requested_sorted:
  assumes "None \<notin> set fs"
  shows "\<exists>ns. keep_requested True req fs = map Some ns
            \<and> sorted_wrt (\<lambda>a b. compareNodes a b \<le> 0) ns
            \<and> set ns = {fd. Some fd \<in> set fs \<and> Some (fname fd) \<in> set req}"
proof -
  let ?kept = "filter (\<lambda>f. case f of None \<Rightarrow> False | Some fd \<Rightarrow> Some (fname fd) \<in> set req) fs"
  let ?ns = "sort_cmp compareNodes (defined_entries ?kept)"
  have nn: "None \<notin> set ?kept"
    by auto
  have "keep_requested True req fs = map Some ?ns"
    by (simp add: keep_requested_def array_sort_defined [OF nn])
  moreover have "sorted_wrt (\<lambda>a b. compareNodes a b \<le> 0) ?ns"
    by (rule sorted_sort_cmp)
  moreover have "set ?ns = {fd. Some fd \<in> set fs \<and> Some (fname fd) \<in> set req}"
    by (auto simp: set_sort_cmp set_defined_entries)
  ultimately show ?thesis
    by blast
qed

text \<open>
  C4. For a selector list without the wildcard, on well-formed definitions, the
  projector returns exactly the definitions whose name is the first segment of a
  selector. For every owning type \<open>t\<close> with field selectors, the first definition named
  \<open>t\<close> gets its field list replaced in place: when \<^verbatim>\<open>*\<close> is not among the requested
  field names only the fields with a requested name stay (\<open>projected_node\<close>,
  \<open>keep_requested\<close>), when \<^verbatim>\<open>*\<close> is requested the field list stays as it is; every
  other definition is untouched. With the sort option the retained fields are ordered
  by \<open>compareNodes\<close>.
\<close>

theorem field_projection:
  assumes "''*'' \<notin> set imports"
    and "well_named h typeDefinitions"
    and "fields_defined h typeDefinitions"
  shows "\<exists>h'. filterImportedDefinitions imports typeDefinitions allDefinitions srt h
            = Inr (filter (\<lambda>r. case name (h r) of
                                  NameNode n \<Rightarrow> Some n \<in> set (map (segment 0) imports)
                                | _ \<Rightarrow> False) typeDefinitions, h')
          \<and> (\<forall>r. h' r =
                (case name (h r) of
                   NameNode t \<Rightarrow>
                     if first_named h typeDefinitions t = Some r \<and> requested_fields imports t \<noteq> []
                     then projected_node srt (requested_fields imports t) (h r)
                     else h r
                 | _ \<Rightarrow> h r))
          \<and> (\<forall>req fs. None \<notin> set fs \<longrightarrow>
                (\<exists>ns. keep_requested True req fs = map Some ns
                   \<and> sorted_wrt (\<lambda>a b. compareNodes a b \<le> 0) ns
                   \<and> set ns = {fd. Some fd \<in> set fs \<and> Some (fname fd) \<in> set req}))"
proof -
  let ?fieldImports = "filter (\<lambda>i. length (split_on (CHR ''.'') i) > 1) imports"
  let ?groups = "groupBy segment_key ?fieldImports"
  let ?h' = "\<lambda>r. case name (h r) of
                    NameNode t \<Rightarrow>
                      if first_named h typeDefinitions t = Some r then
                        (case map_of ?groups t of
                           None \<Rightarrow> h r
                         | Some g \<Rightarrow> projected_node srt (map (segment 1) g) (h r))
                      else h r
                  | _ \<Rightarrow> h r"
  have sel: "filterE (named_with h (\<lambda>n. Some n \<in> set (map (segment 0) imports))) typeDefinitions
               = Inr (filter (\<lambda>r. case name (h r) of
                                     NameNode n \<Rightarrow> Some n \<in> set (map (segment 0) imports)
                                   | _ \<Rightarrow> False) typeDefinitions)"
    by (rule filterE_Inr) (rule named_with_Inr [OF assms(2)])
  have loop: "project_all srt typeDefinitions h ?groups = Inr ?h'"
    by (rule project_all_eq) (rule distinct_groupBy_keys, fact assms(2), fact assms(3))
  have run: "filterImportedDefinitions imports typeDefinitions allDefinitions srt h
            = Inr (filter (\<lambda>r. case name (h r) of
                                  NameNode n \<Rightarrow> Some n \<in> set (map (segment 0) imports)
                                | _ \<Rightarrow> False) typeDefinitions, ?h')"
    using assms(1) sel loop by (simp add: filterImportedDefinitions_def)
  have heap: "?h' r =
                (case name (h r) of
                   NameNode t \<Rightarrow>
                     if first_named h typeDefinitions t = Some r \<and> requested_fields imports t \<noteq> []
                     then projected_node srt (requested_fields imports t) (h r)
                     else h r
                 | _ \<Rightarrow> h r)" for r
  proof (cases "name (h r)")
    case (NameNode t)
    show ?thesis
    proof (cases "requested_fields imports t = []")
      case True
      then have "map_of ?groups t = None"
        by (simp add: map_of_groupBy requested_fields_empty_iff)
      with NameNode True show ?thesis
        by simp
    next
      case False
      then have "map_of ?groups t = Some (filter (\<lambda>i. segment_key i = t) ?fieldImports)"
        by (simp add: map_of_groupBy requested_fields_empty_iff)
      with NameNode False show ?thesis
        by (simp add: requested_fields_def)
    qed
  qed simp_all
  from run heap keep_requested_sorted show ?thesis
    by blast
qed

text \<open>
  An object type with the given field names; importing \<^verbatim>\<open>Type.fieldA\<close> from a document
  that defines \<^verbatim>\<open>Type\<close> with two fields leaves only \<^verbatim>\<open>fieldA\<close>, importing
  \<^verbatim>\<open>Type.*\<close> leaves both.
\<close>

definition type_node :: "string \<Rightarrow> string list \<Rightarrow> definition_node" where
  "type_node n fs =
     \<lparr>kind = ''ObjectTypeDefinition'', name = NameNode n,
      field_nodes = Some (map (\<lambda>f. Some \<lparr>fname = f, fkind = ''FieldDefinition'', ftype = ''Int''\<rparr>) fs)\<rparr>"

theorem field_projection_witness:
  "''*'' \<notin> set [''Type.fieldA'']
   \<and> well_named (\<lambda>_. type_node ''Type'' [''fieldB'', ''fieldA'']) [0]
   \<and> fields_defined (\<lambda>_. type_node ''Type'' [''fieldB'', ''fieldA'']) [0]
   \<and> (\<exists>h'. filterImportedDefinitions [''Type.fieldA''] [0] [[0]] False
              (\<lambda>_. type_node ''Type'' [''fieldB'', ''fieldA'']) = Inr ([0], h')
          \<and> h' 0 = type_node ''Type'' [''fieldA''])
   \<and> (\<exists>h'. filterImportedDefinitions [''Type.*''] [0] [[0]] False
              (\<lambda>_. type_node ''Type'' [''fieldB'', ''fieldA'']) = Inr ([0], h')
          \<and> h' 0 = type_node ''Type'' [''fieldB'', ''fieldA''])"
proof -
  let ?h = "\<lambda>_::ref. type_node ''Type'' [''fieldB'', ''fieldA'']"
  have a: "''*'' \<notin> set [''Type.fieldA'']" and a': "''*'' \<notin> set [''Type.*'']"
    by simp_all
  have b: "well_named ?h [0]"
    by (simp add: well_named_def type_node_def)
  have c: "fields_defined ?h [0]"
    by (auto simp: fields_defined_def type_node_def)
  have s1: "split_on (CHR ''.'') ''Type.fieldA'' = [''Type'', ''fieldA'']"
    and s2: "split_on (CHR ''.'') ''Type.*'' = [''Type'', ''*'']"
    by simp_all
  have fn: "first_named ?h [0] ''Type'' = Some 0"
    by (simp add: first_named_def type_node_def)
  have nm: "name (type_node ''Type'' [''fieldB'', ''fieldA'']) = NameNode ''Type''"
    by (simp add: type_node_def)
  have r1: "requested_fields [''Type.fieldA''] ''Type'' = [Some ''fieldA'']"
    and r2: "requested_fields [''Type.*''] ''Type'' = [Some ''*'']"
    by (simp_all add: requested_fields_def segment_def segment_key_def at_index_def s1 s2)
  have p1: "projected_node False [Some ''fieldA''] (type_node ''Type'' [''fieldB'', ''fieldA''])
              = type_node ''Type'' [''fieldA'']"
    and p2: "projected_node False [Some ''*''] (type_node ''Type'' [''fieldB'', ''fieldA''])
              = type_node ''Type'' [''fieldB'', ''fieldA'']"
    by (simp_all add: projected_node_def keep_requested_def type_node_def)
  from field_projection [OF a b c, of "[[0]]" False] obtain h1 where
    "filterImportedDefinitions [''Type.fieldA''] [0] [[0]] False ?h = Inr ([0], h1)
     \<and> h1 0 = type_node ''Type'' [''fieldA'']"
    by (auto simp: nm fn r1 p1 segment_def at_index_def s1)
  moreover from field_projection [OF a' b c, of "[[0]]" False] obtain h2 where
    "filterImportedDefinitions [''Type.*''] [0] [[0]] False ?h = Inr ([0], h2)
     \<and> h2 0 = type_node ''Type'' [''fieldB'', ''fieldA'']"
    by (auto simp: nm fn r2 p2 segment_def at_index_def s2)
  ultimately show ?thesis
    using a b c by blast
qed

section \<open>The bare wildcard\<close>

lemma fold_upd_dom:
  "dom (fold (\<lambda>x m. m(f x \<mapsto> x)) xs m0) = f ` set xs \<union> dom m0"
  by (induction xs arbitrary: m0) auto

lemma keyBy_dom: "dom (keyBy f xs) = f ` set xs"
  by (simp add: keyBy_def fold_upd_dom)

lemma truthy_lookup_keyBy:
  "truthy_lookup (keyBy f xs) k \<longleftrightarrow> k \<in> f ` set xs \<or> k \<in> set objectPrototypeKeys"
proof -
  have "keyBy f xs k \<noteq> None \<longleftrightarrow> k \<in> dom (keyBy f xs)"
    by (simp only: domIff)
  then show ?thesis
    by (simp only: truthy_lookup_def keyBy_dom)
qed

lemma named_non_root_Inr:
  assumes "well_named h ds" and "r \<in> set ds"
  shows "named_non_root h r
           = Inr (case name (h r) of NameNode n \<Rightarrow> n \<notin> set rootFields | _ \<Rightarrow> False)"
  using assms by (auto simp: well_named_def named_non_root_def split: name_slot.splits)

text \<open>
  The names seen in strictly earlier documents, the three root operation type names
  left out.
\<close>

definition earlier_names :: "heap \<Rightarrow> ref list list \<Rightarrow> string set" where
  "earlier_names h allDefinitions =
     {n. n \<notin> set rootFields \<and> (\<exists>r \<in> set (concat (butlast allDefinitions)). name (h r) = NameNode n)}"

text \<open>
  The selector list \<^verbatim>\<open>['*']\<close> on a document that is not the first one: the result holds
  the object type definitions whose name was seen in an earlier document, or is the
  name of a member of \<^verbatim>\<open>Object.prototype\<close>; no definition is edited.
\<close>

theorem bare_wildcard_projection:
  assumes "length allDefinitions > 1"
    and "well_named h (concat (butlast allDefinitions))"
    and "\<forall>r \<in> set typeDefinitions.
           kind (h r) = ''ObjectTypeDefinition'' \<longrightarrow> (\<exists>n. name (h r) = NameNode n)"
  shows "filterImportedDefinitions [''*''] typeDefinitions allDefinitions srt h
           = Inr (filter (\<lambda>r. kind (h r) = ''ObjectTypeDefinition'' \<and>
                               (case name (h r) of
                                  NameNode n \<Rightarrow>
                                    n \<in> earlier_names h allDefinitions \<or> n \<in> set objectPrototypeKeys
                                | _ \<Rightarrow> False)) typeDefinitions, h)"
proof -
  let ?earlier = "concat (butlast allDefinitions)"
  let ?previous = "filter (\<lambda>r. case name (h r) of NameNode n \<Rightarrow> n \<notin> set rootFields | _ \<Rightarrow> False) ?earlier"
  have prev: "filterE (named_non_root h) ?earlier = Inr ?previous"
    by (rule filterE_Inr) (rule named_non_root_Inr [OF assms(2)])
  have keys: "name_key h ` set ?previous = earlier_names h allDefinitions"
  proof (rule set_eqI)
    fix n
    have "n \<in> name_key h ` set ?previous
            \<longleftrightarrow> (\<exists>r \<in> set ?earlier. name (h r) = NameNode n \<and> n \<notin> set rootFields)"
    proof
      assume "n \<in> name_key h ` set ?previous"
      then obtain r where "r \<in> set ?previous" and "n = name_key h r"
        by blast
      then show "\<exists>r \<in> set ?earlier. name (h r) = NameNode n \<and> n \<notin> set rootFields"
        by (cases "name (h r)") (auto simp: name_key_def)
    next
      assume "\<exists>r \<in> set ?earlier. name (h r) = NameNode n \<and> n \<notin> set rootFields"
      then obtain r where r: "r \<in> set ?earlier" "name (h r) = NameNode n" "n \<notin> set rootFields"
        by blast
      then have "r \<in> set ?previous" and "name_key h r = n"
        by (simp_all add: name_key_def)
      then show "n \<in> name_key h ` set ?previous"
        by blast
    qed
    then show "n \<in> name_key h ` set ?previous \<longleftrightarrow> n \<in> earlier_names h allDefinitions"
      by (auto simp: earlier_names_def)
  qed
  have "filterE (seen_object_type h (keyBy (name_key h) ?previous)) typeDefinitions
          = Inr (filter (\<lambda>r. kind (h r) = ''ObjectTypeDefinition'' \<and>
                               (case name (h r) of
                                  NameNode n \<Rightarrow>
                                    n \<in> earlier_names h allDefinitions \<or> n \<in> set objectPrototypeKeys
                                | _ \<Rightarrow> False)) typeDefinitions)"
  proof (rule filterE_Inr)
    fix r assume "r \<in> set typeDefinitions"
    with assms(3) have "kind (h r) = ''ObjectTypeDefinition'' \<Longrightarrow> \<exists>n. name (h r) = NameNode n"
      by blast
    then show "seen_object_type h (keyBy (name_key h) ?previous) r
                 = Inr (kind (h r) = ''ObjectTypeDefinition'' \<and>
                        (case name (h r) of
                           NameNode n \<Rightarrow>
                             n \<in> earlier_names h allDefinitions \<or> n \<in> set objectPrototypeKeys
                         | _ \<Rightarrow> False))"
      using keys by (auto simp: seen_object_type_def truthy_lookup_keyBy)
  qed
  with prev assms(1) show ?thesis
    by (simp add: filterImportedDefinitions_def at_index_def butlast_conv_take)
qed

text \<open>The selector list \<^verbatim>\<open>['*']\<close> on the first document returns all its definitions.\<close>

theorem entry_wildcard_projection:
  assumes "length allDefinitions \<le> 1"
  shows "filterImportedDefinitions [''*''] typeDefinitions allDefinitions srt h
           = Inr (typeDefinitions, h)"
  using assms by (simp add: filterImportedDefinitions_def)

text \<open>An object type definition without fields.\<close>

definition object_type :: "string \<Rightarrow> definition_node" where
  "object_type n = \<lparr>kind = ''ObjectTypeDefinition'', name = NameNode n, field_nodes = Some []\<rparr>"

text \<open>
  C2. The claim lets a bare wildcard on a later document return only object types
  whose name occurs in an earlier document. The code looks the name up in the plain
  object that \<^verbatim>\<open>keyBy\<close> returns, so a name that every object inherits passes the test
  without having been seen: with \<^verbatim>\<open>Query\<close> in the first document, the second
  document's type \<^verbatim>\<open>constructor\<close> is returned, while its type \<^verbatim>\<open>Other\<close> is dropped.
\<close>

theorem wildcard_keeps_unseen_prototype_name:
  "filterImportedDefinitions [''*''] [1, 2] [[0], [1, 2]] False
     ((\<lambda>_. object_type ''Query'')(1 := object_type ''constructor'', 2 := object_type ''Other''))
   = Inr ([1], (\<lambda>_. object_type ''Query'')(1 := object_type ''constructor'', 2 := object_type ''Other''))"
  by (simp add: filterImportedDefinitions_def at_index_def named_non_root_def rootFields_def
      seen_object_type_def keyBy_def name_key_def truthy_lookup_def objectPrototypeKeys_def
      object_type_def)

text \<open>
  C8. The claim lets the projector return a result for every definition sequence.
  The guard \<^verbatim>\<open>'name' in d\<close> of line 249 lets a node through whose \<^verbatim>\<open>name\<close> key is
  present and \<^verbatim>\<open>undefined\<close>, an anonymous operation, and \<^verbatim>\<open>d.name.value\<close> then raises
  a \<^verbatim>\<open>TypeError\<close>.
\<close>

theorem projector_raises_on_undefined_name:
  "filterImportedDefinitions [''Foo''] [0] [[0]] False
     (\<lambda>_. \<lparr>kind = ''OperationDefinition'', name = NameUndefined, field_nodes = None\<rparr>)
   = Inl TypeError"
  by (simp add: filterImportedDefinitions_def named_with_def)

section \<open>The cross-file merger\<close>

text \<open>
  Lines 92 to 115 of \<^verbatim>\<open>processImportSyntax\<close>. \<^verbatim>\<open>uniqBy(..., 'name.value')\<close> keys a field
  node by its name and an \<^verbatim>\<open>undefined\<close> entry by \<^verbatim>\<open>undefined\<close>.
\<close>

definition field_key :: "field_node option \<Rightarrow> string option" where
  "field_key f = map_option fname f"

text \<open>Lines 108 to 111: the field list assigned to the canonical definition.\<close>

definition merged_fields :: "bool \<Rightarrow> field_node option list \<Rightarrow> field_node option list" where
  "merged_fields srt fs =
     (let merged = uniqBy field_key fs
      in if srt then array_sort compareNodes merged else merged)"

text \<open>Line 105: \<^verbatim>\<open>t.name.value === type.name.value\<close>.\<close>

definition name_is :: "heap \<Rightarrow> string \<Rightarrow> ref \<Rightarrow> error + bool" where
  "name_is h n t = (case name (h t) of NameNode m \<Rightarrow> Inr (m = n) | _ \<Rightarrow> Inl TypeError)"

text \<open>
  Lines 100 to 114, the body of the loop over \<^verbatim>\<open>firstSet\<close>. The state is the store, the
  array \<^verbatim>\<open>processedTypeNames\<close> and the array \<^verbatim>\<open>mergedFirstTypes\<close>.
  \<^verbatim>\<open>existingType.fields.concat(type.fields)\<close> appends the entries of an array and
  appends \<^verbatim>\<open>undefined\<close> itself when \<^verbatim>\<open>type\<close> has no fields.
\<close>

definition merge_type ::
  "bool \<Rightarrow> heap \<times> string list \<times> ref list \<Rightarrow> ref \<Rightarrow> error + (heap \<times> string list \<times> ref list)" where
  "merge_type srt st r =
     (case st of (h, processedTypeNames, mergedFirstTypes) \<Rightarrow>
        (case name (h r) of
           NameAbsent \<Rightarrow> Inr st
         | NameUndefined \<Rightarrow> Inl TypeError
         | NameNode n \<Rightarrow>
             if n \<notin> set processedTypeNames then
               Inr (h, processedTypeNames @ [n], mergedFirstTypes @ [r])
             else
               (case findE (name_is h n) mergedFirstTypes of
                  Inl e \<Rightarrow> Inl e
                | Inr None \<Rightarrow> Inl TypeError
                | Inr (Some existingType) \<Rightarrow>
                    (case field_nodes (h existingType) of
                       None \<Rightarrow> Inr st
                     | Some efs \<Rightarrow>
                         (let added = (case field_nodes (h r) of None \<Rightarrow> [None] | Some tfs \<Rightarrow> tfs)
                          in Inr (h(existingType := (h existingType)\<lparr>field_nodes :=
                                    Some (merged_fields srt (efs @ added))\<rparr>),
                                  processedTypeNames, mergedFirstTypes))))))"

fun merge_all ::
  "bool \<Rightarrow> heap \<times> string list \<times> ref list \<Rightarrow> ref list \<Rightarrow> error + (heap \<times> string list \<times> ref list)" where
  "merge_all srt st [] = Inr st"
| "merge_all srt st (r # rs) =
     (case merge_type srt st r of
        Inl e \<Rightarrow> Inl e
      | Inr st' \<Rightarrow> merge_all srt st' rs)"

text \<open>
  Lines 92 to 115: the candidate set and the walk over it. The result is the store
  after the walk, \<^verbatim>\<open>firstSet\<close> and \<^verbatim>\<open>mergedFirstTypes\<close>. \<^verbatim>\<open>typeDefinitions[0]\<close> of an
  empty array is \<^verbatim>\<open>undefined\<close>, which the loop cannot read.
\<close>

definition merge_first_types ::
  "bool \<Rightarrow> heap \<Rightarrow> ref list list \<Rightarrow> error + (heap \<times> ref list \<times> ref list)" where
  "merge_first_types srt h typeDefinitions =
     (case typeDefinitions of
        [] \<Rightarrow> Inl TypeError
      | secondFirstTypes # _ \<Rightarrow>
          (let firstTypes = concat typeDefinitions;
               otherFirstTypes = concat (drop 1 typeDefinitions);
               firstSet = firstTypes @ secondFirstTypes @ otherFirstTypes
           in case merge_all srt (h, [], []) firstSet of
                Inl e \<Rightarrow> Inl e
              | Inr (h', processedTypeNames, mergedFirstTypes) \<Rightarrow>
                  Inr (h', firstSet, mergedFirstTypes)))"



lemma name_key_eq: "name (h r) = NameNode n \<Longrightarrow> name_key h r = n"
  by (simp add: name_key_def)





lemma baseUniq_append:
  "baseUniq f seen (xs @ ys)
     = baseUniq f seen xs @ baseUniq f (seen @ map f (baseUniq f seen xs)) ys"
proof (induction xs arbitrary: seen)
  case Nil
  show ?case by simp
next
  case (Cons x xs)
  show ?case
  proof (cases "f x \<in> set seen")
    case True
    with Cons.IH [of seen] show ?thesis by simp
  next
    case False
    have "baseUniq f (f x # seen @ map f (baseUniq f (f x # seen) xs)) ys
            = baseUniq f (seen @ f x # map f (baseUniq f (f x # seen) xs)) ys"
      by (rule baseUniq_seen_cong) auto
    with False Cons.IH [of "f x # seen"] show ?thesis by simp
  qed
qed



lemma mset_defined_entries:
  "mset xs = mset (map Some (defined_entries xs)) + mset (filter (\<lambda>x. x = None) xs)"
  by (induction xs rule: defined_entries.induct) auto

lemma mset_array_sort: "mset (array_sort compareNodes xs) = mset xs"
proof -
  have "mset (array_sort compareNodes xs)
          = mset (map Some (defined_entries xs)) + mset (filter (\<lambda>x. x = None) xs)"
    by (simp add: array_sort_def sort_cmp_compareNodes)
  also have "\<dots> = mset xs"
    by (rule mset_defined_entries [symmetric])
  finally show ?thesis .
qed

lemma set_array_sort: "set (array_sort compareNodes xs) = set xs"
  using mset_array_sort [of xs] by (metis set_mset_mset)

lemma distinct_keys_array_sort:
  "distinct (map f (array_sort compareNodes xs)) = distinct (map f xs)"
proof -
  have "mset (map f (array_sort compareNodes xs)) = mset (map f xs)"
    by (simp add: mset_array_sort)
  then show ?thesis
    by (rule mset_eq_imp_distinct_iff)
qed







lemma baseUniq_absorb:
  assumes "f ` set ys \<subseteq> set seen"
  shows "baseUniq f seen ys = []"
  using assms by (induction ys) auto

lemma uniqBy_absorb:
  assumes "distinct (map f xs)" and "f ` set ys \<subseteq> f ` set xs"
  shows "uniqBy f (xs @ ys) = xs"
proof -
  have "baseUniq f [] xs = xs"
    by (rule baseUniq_distinct_id) (use assms(1) in auto)
  moreover have "baseUniq f ([] @ map f xs) ys = []"
    by (rule baseUniq_absorb) (use assms(2) in auto)
  ultimately show ?thesis
    by (simp add: uniqBy_def baseUniq_append)
qed

lemma uniqBy_twice: "uniqBy f (xs @ xs) = uniqBy f xs"
proof -
  have "baseUniq f ([] @ map f (baseUniq f [] xs)) xs = []"
    by (rule baseUniq_absorb) (simp add: baseUniq_keys)
  then show ?thesis
    by (simp add: uniqBy_def baseUniq_append)
qed

lemma array_sort_idem:
  "array_sort compareNodes (array_sort compareNodes xs) = array_sort compareNodes xs"
proof -
  let ?s = "sort_key node_key (defined_entries xs)"
  let ?n = "filter (\<lambda>x. x = None) xs"
  have de: "defined_entries (map Some ys @ filter (\<lambda>x. x = None) zs) = ys" for ys :: "field_node list" and zs
  proof (induction ys)
    case Nil
    show ?case by (induction zs rule: defined_entries.induct) auto
  qed simp
  have nn: "filter (\<lambda>x. x = None) (map Some ys @ filter (\<lambda>x. x = None) zs) = filter (\<lambda>x. x = None) zs"
    for ys :: "field_node list" and zs
    by (induction ys) auto
  have "sort_key node_key ?s = ?s"
    by (rule sort_key_id_if_sorted) (rule sorted_sort_key)
  then show ?thesis
    by (simp add: array_sort_def sort_cmp_compareNodes de nn)
qed

lemma merged_fields_keys: "field_key ` set (merged_fields srt fs) = field_key ` set fs"
  by (simp add: merged_fields_def Let_def uniqBy_keys set_array_sort)

lemma merged_fields_distinct: "distinct (map field_key (merged_fields srt fs))"
  by (simp add: merged_fields_def Let_def distinct_uniqBy distinct_keys_array_sort)

lemma merged_fields_twice: "merged_fields srt (fs @ fs) = merged_fields srt fs"
  by (simp add: merged_fields_def uniqBy_twice)

lemma merged_fields_absorb:
  assumes "field_key ` set ys \<subseteq> field_key ` set fs"
  shows "merged_fields srt (merged_fields srt fs @ ys) = merged_fields srt fs"
proof -
  have "uniqBy field_key (merged_fields srt fs @ ys) = merged_fields srt fs"
    by (rule uniqBy_absorb) (simp_all add: merged_fields_distinct merged_fields_keys assms)
  moreover have "array_sort compareNodes (merged_fields True fs) = merged_fields True fs"
    by (simp add: merged_fields_def array_sort_idem)
  ultimately show ?thesis
    by (cases srt) (simp_all add: merged_fields_def [of _ "_ @ _"] Let_def)
qed

lemma merged_fields_distinct_id:
  assumes "distinct (map field_key fs)"
  shows "merged_fields False fs = fs \<and> set (merged_fields srt fs) = set fs"
  using assms by (simp add: merged_fields_def Let_def uniqBy_distinct_id set_array_sort)

lemma merge_copies:
  assumes n: "name (h a) = NameNode n" and fs: "field_nodes (h a) = Some fs" and eq: "h b = h a"
  shows "merge_all srt (h, [], []) [a, b]
           = Inr (h(a := (h a)\<lparr>field_nodes := Some (merged_fields srt fs)\<rparr>), [n], [a])"
    and "merge_all srt (h, [], []) [a, b, a, b]
           = Inr (h(a := (h a)\<lparr>field_nodes := Some (merged_fields srt fs)\<rparr>), [n], [a])"
proof -
  let ?F = "merged_fields srt fs"
  let ?h1 = "h(a := (h a)\<lparr>field_nodes := Some ?F\<rparr>)"
  have s1: "merge_type srt (h, [], []) a = Inr (h, [n], [a])"
    using n by (simp add: merge_type_def)
  have s2: "merge_type srt (h, [n], [a]) b = Inr (?h1, [n], [a])"
    using n fs eq by (simp add: merge_type_def name_is_def merged_fields_twice)
  have s3: "merge_type srt (?h1, [n], [a]) a = Inr (?h1, [n], [a])"
    using n fs merged_fields_absorb [of ?F fs srt]
    by (simp add: merge_type_def name_is_def merged_fields_keys)
  have s4: "merge_type srt (?h1, [n], [a]) b = Inr (?h1, [n], [a])"
  proof (cases "b = a")
    case True
    with s3 show ?thesis by simp
  next
    case False
    then show ?thesis
      using n fs eq merged_fields_absorb [of fs fs srt]
      by (simp add: merge_type_def name_is_def)
  qed
  show "merge_all srt (h, [], []) [a, b] = Inr (?h1, [n], [a])"
    by (simp add: s1 s2)
  show "merge_all srt (h, [], []) [a, b, a, b] = Inr (?h1, [n], [a])"
    by (simp add: s1 s2 s3 s4)
qed
























lemma uniqBy_append:
  "uniqBy f (xs @ ys) = uniqBy f xs @ baseUniq f (map f (uniqBy f xs)) ys"
  by (simp add: uniqBy_def baseUniq_append)

lemma uniqBy_idem: "uniqBy f (uniqBy f xs) = uniqBy f xs"
  by (rule uniqBy_distinct_id) (rule distinct_uniqBy)

lemma uniqBy_uniqBy_append: "uniqBy f (uniqBy f xs @ ys) = uniqBy f (xs @ ys)"
  by (simp add: uniqBy_append [of f "uniqBy f xs"] uniqBy_append [of f xs] uniqBy_idem)

lemma mset_defined_entries_cong:
  assumes "mset xs = mset (ys :: 'a option list)"
  shows "mset (defined_entries xs) = mset (defined_entries ys)"
proof -
  have de: "mset (defined_entries zs) = image_mset the (filter_mset (\<lambda>x. x \<noteq> None) (mset zs))"
    for zs :: "'a option list"
    by (induction zs rule: defined_entries.induct) auto
  show ?thesis
    by (simp add: de assms)
qed

lemma filter_None_cong:
  assumes "mset xs = mset ys"
  shows "filter (\<lambda>x. x = None) xs = filter (\<lambda>x. x = None) (ys :: 'a option list)"
proof -
  have rep: "filter (\<lambda>x. x = None) zs = replicate (count (mset zs) None) None"
    for zs :: "'a option list"
    by (induction zs) auto
  show ?thesis
    by (simp add: rep assms)
qed

lemma distinct_defined_entries:
  assumes "distinct (map field_key xs)"
  shows "distinct (map fname (defined_entries xs))"
  using assms
proof (induction xs rule: defined_entries.induct)
  case (3 x xs)
  have "fname x \<notin> fname ` set (defined_entries xs)"
  proof
    assume "fname x \<in> fname ` set (defined_entries xs)"
    then obtain y where "y \<in> set (defined_entries xs)" and "fname y = fname x"
      by auto
    then have "Some y \<in> set xs" and "field_key (Some y) = field_key (Some x)"
      by (simp_all add: set_defined_entries field_key_def)
    with 3(2) show False
      by (auto simp: image_iff)
  qed
  with 3 show ?case by simp
qed simp_all

lemma sort_key_perm:
  assumes m: "mset xs = mset ys" and d: "distinct (map f xs)"
  shows "sort_key f xs = sort_key f ys"
proof (rule properties_for_sort_key [symmetric])
  show "mset (sort_key f xs) = mset ys"
    by (simp add: m)
  show "sorted (map f (sort_key f xs))"
    by simp
  fix k assume "k \<in> set (sort_key f xs)"
  then have k: "k \<in> set xs" by simp
  from d have inj: "inj_on f (set xs)" and dx: "distinct xs"
    by (simp_all add: distinct_map)
  from m have sy: "set ys = set xs" and dy: "distinct ys"
    using dx by (metis set_mset_mset, metis distinct_count_atmost_1 mset_eq_setD set_mset_mset m dx)
  have one: "filter (\<lambda>x. f k = f x) zs = [k]" if "set zs = set xs" and "distinct zs" for zs
  proof -
    have "filter (\<lambda>x. f k = f x) zs = filter (\<lambda>x. x = k) zs"
      by (rule filter_cong) (use that(1) inj k in \<open>auto dest: inj_onD\<close>)
    also have "\<dots> = [k]"
      using that(2) k [folded that(1)] by (induction zs) (auto simp: filter_empty_conv)
    finally show ?thesis .
  qed
  show "filter (\<lambda>x. f k = f x) (sort_key f xs) = filter (\<lambda>x. f k = f x) ys"
    by (simp add: one sy dy dx)
qed

lemma node_key_inj:
  assumes "distinct (map fname xs)"
  shows "distinct (map node_key xs)"
proof -
  have "map fname xs = map fst (map node_key xs)"
    by (simp add: node_key_def)
  with assms show ?thesis
    by (metis distinct_map)
qed

lemma array_sort_perm:
  assumes "mset xs = mset ys" and "distinct (map field_key xs)"
  shows "array_sort compareNodes xs = array_sort compareNodes ys"
proof -
  have "distinct (map node_key (defined_entries xs))"
    by (rule node_key_inj) (rule distinct_defined_entries [OF assms(2)])
  then have "sort_key node_key (defined_entries xs) = sort_key node_key (defined_entries ys)"
    by (rule sort_key_perm [OF mset_defined_entries_cong [OF assms(1)]])
  then show ?thesis
    by (simp add: array_sort_def sort_cmp_compareNodes filter_None_cong [OF assms(1)])
qed

lemma merged_fields_merged:
  "merged_fields srt (merged_fields srt xs @ ys) = merged_fields srt (xs @ ys)"
proof (cases srt)
  case False
  then show ?thesis
    by (simp add: merged_fields_def uniqBy_uniqBy_append)
next
  case True
  let ?U = "uniqBy field_key xs"
  let ?P = "array_sort compareNodes ?U"
  have dP: "distinct (map field_key ?P)"
    by (simp add: distinct_keys_array_sort distinct_uniqBy)
  have "uniqBy field_key (?P @ ys) = ?P @ baseUniq field_key (map field_key ?P) ys"
    by (simp add: uniqBy_append uniqBy_distinct_id [OF dP])
  also have "baseUniq field_key (map field_key ?P) ys = baseUniq field_key (map field_key ?U) ys"
    by (rule baseUniq_seen_cong) (simp add: set_array_sort)
  finally have l: "uniqBy field_key (?P @ ys) = ?P @ baseUniq field_key (map field_key ?U) ys" .
  have r: "uniqBy field_key (xs @ ys) = ?U @ baseUniq field_key (map field_key ?U) ys"
    by (rule uniqBy_append)
  have "array_sort compareNodes (uniqBy field_key (?P @ ys))
          = array_sort compareNodes (uniqBy field_key (xs @ ys))"
  proof (rule array_sort_perm)
    show "mset (uniqBy field_key (?P @ ys)) = mset (uniqBy field_key (xs @ ys))"
      by (simp add: l r mset_array_sort)
    show "distinct (map field_key (uniqBy field_key (?P @ ys)))"
      by (rule distinct_uniqBy)
  qed
  with True show ?thesis
    by (simp add: merged_fields_def)
qed

lemma merged_fields_idem: "merged_fields srt (merged_fields srt xs) = merged_fields srt xs"
  using merged_fields_merged [of srt xs "[]"] by simp








text \<open>
  C7. Two definitions \<open>a\<close> and \<open>b\<close> that hold the same node, an object type named \<open>n\<close>
  with the field list \<open>fs\<close>: the walk over the two, in either order, and the merge of
  two documents that hold one each, in either order, leave one canonical definition
  whose fields are \<open>merged_fields srt fs\<close>. That list has the field names of \<open>fs\<close>; when
  the names of \<open>fs\<close> are distinct it has exactly the fields of \<open>fs\<close>, and is \<open>fs\<close> itself
  without the sort option.
\<close>

theorem merge_identical_copies:
  assumes "name (h a) = NameNode n" and "field_nodes (h a) = Some fs" and "h b = h a"
  shows "merge_all srt (h, [], []) [a, b]
           = Inr (h(a := (h a)\<lparr>field_nodes := Some (merged_fields srt fs)\<rparr>), [n], [a])
       \<and> merge_all srt (h, [], []) [b, a]
           = Inr (h(b := (h a)\<lparr>field_nodes := Some (merged_fields srt fs)\<rparr>), [n], [b])
       \<and> merge_first_types srt h [[a], [b]]
           = Inr (h(a := (h a)\<lparr>field_nodes := Some (merged_fields srt fs)\<rparr>), [a, b, a, b], [a])
       \<and> merge_first_types srt h [[b], [a]]
           = Inr (h(b := (h a)\<lparr>field_nodes := Some (merged_fields srt fs)\<rparr>), [b, a, b, a], [b])
       \<and> field_key ` set (merged_fields srt fs) = field_key ` set fs
       \<and> (distinct (map field_key fs) \<longrightarrow>
            set (merged_fields srt fs) = set fs \<and> merged_fields False fs = fs)"
proof -
  have ba: "name (h b) = NameNode n" "field_nodes (h b) = Some fs" "h a = h b"
    using assms by simp_all
  note ab = merge_copies [OF assms, of srt]
  note ba' = merge_copies [OF ba, of srt]
  show ?thesis
    using ab ba' merged_fields_distinct_id [of fs srt]
    by (simp add: merge_first_types_def merged_fields_keys assms(3))
qed



theorem merge_identical_copies_witness:
  "name ((\<lambda>_. type_node ''T'' [''x'', ''y'']) (0::nat)) = NameNode ''T''
   \<and> merge_first_types False (\<lambda>_. type_node ''T'' [''x'', ''y'']) [[0], [1]]
       = Inr (\<lambda>_. type_node ''T'' [''x'', ''y''], [0, 1, 0, 1], [0])
   \<and> merge_first_types False (\<lambda>_. type_node ''T'' [''x'', ''y'']) [[1], [0]]
       = Inr (\<lambda>_. type_node ''T'' [''x'', ''y''], [1, 0, 1, 0], [1])"
proof -
  let ?h = "\<lambda>_::ref. type_node ''T'' [''x'', ''y'']"
  let ?fs = "map (\<lambda>f. Some \<lparr>fname = f, fkind = ''FieldDefinition'', ftype = ''Int''\<rparr>) [''x'', ''y'']"
  have a: "name (?h 0) = NameNode ''T''" and b: "field_nodes (?h 0) = Some ?fs" and c: "?h 1 = ?h 0"
    by (simp_all add: type_node_def)
  have d: "distinct (map field_key ?fs)"
    by (simp add: field_key_def)
  have e: "(?h 0)\<lparr>field_nodes := Some ?fs\<rparr> = ?h 0"
    by (simp add: type_node_def)
  have upd: "?h(k := ?h 0) = ?h" for k
    by (rule ext) simp
  from merge_identical_copies [OF a b c, of False] d have
    "merge_first_types False ?h [[0], [1]] = Inr (?h(0 := (?h 0)\<lparr>field_nodes := Some ?fs\<rparr>), [0, 1, 0, 1], [0])"
    "merge_first_types False ?h [[1], [0]] = Inr (?h(1 := (?h 0)\<lparr>field_nodes := Some ?fs\<rparr>), [1, 0, 1, 0], [1])"
    by simp_all
  then show ?thesis
    unfolding e upd using a by simp
qed

section \<open>The import-line grammar and the directive extractor\<close>

text \<open>
  Strings are lists of 8-bit characters. Among these, \<^verbatim>\<open>\s\<close> and \<^verbatim>\<open>trim\<close> take tab, line
  feed, vertical tab, form feed, carriage return, space and the no-break space for white
  space, and \<^verbatim>\<open>.\<close> matches every character but line feed and carriage return.
\<close>

definition isWhiteSpace :: "char \<Rightarrow> bool" where
  "isWhiteSpace c =
     (c \<in> set [CHR 0x09, CHR 0x0A, CHR 0x0B, CHR 0x0C, CHR 0x0D, CHR 0x20, CHR 0xA0])"

definition isLineTerminator :: "char \<Rightarrow> bool" where
  "isLineTerminator c = (c = CHR 0x0A \<or> c = CHR 0x0D)"

definition isQuote :: "char \<Rightarrow> bool" where
  "isQuote c = (c = CHR 0x27 \<or> c = CHR 0x22)"

text \<open>\<^verbatim>\<open>s.trim()\<close> and \<^verbatim>\<open>s.startsWith(p)\<close>.\<close>

definition trim :: "string \<Rightarrow> string" where
  "trim s = rev (dropWhile isWhiteSpace (rev (dropWhile isWhiteSpace s)))"

definition startsWith :: "string \<Rightarrow> string \<Rightarrow> bool" where
  "startsWith s p = (take (length p) s = p)"

text \<open>
  The two regular expressions are matched the way a backtracking matcher does it: every
  part of an expression takes the rest of the expression as its continuation \<open>k\<close>, and a
  part with a choice tries its possibilities in the order of their priority. \<open>lit\<close> is a
  literal, \<open>greedy P m\<close> at least \<open>m\<close> characters of the class \<open>P\<close>, the longest run first,
  \<open>quote\<close> the group \<^verbatim>\<open>('|")\<close>, \<open>optional_lit\<close> a literal followed by \<^verbatim>\<open>?\<close>, \<open>at_end\<close> the
  anchor \<^verbatim>\<open>$\<close>, \<open>alternative\<close> the bar.
\<close>

fun first_some :: "('a \<Rightarrow> 'r option) \<Rightarrow> 'a list \<Rightarrow> 'r option" where
  "first_some f [] = None"
| "first_some f (x # xs) = (case f x of Some r \<Rightarrow> Some r | None \<Rightarrow> first_some f xs)"

definition lit :: "string \<Rightarrow> (string \<Rightarrow> 'r option) \<Rightarrow> string \<Rightarrow> 'r option" where
  "lit p k s = (if startsWith s p then k (drop (length p) s) else None)"

definition greedy ::
  "(char \<Rightarrow> bool) \<Rightarrow> nat \<Rightarrow> (string \<Rightarrow> string \<Rightarrow> 'r option) \<Rightarrow> string \<Rightarrow> 'r option" where
  "greedy P m k s =
     first_some (\<lambda>n. k (take n s) (drop n s)) (rev [m ..< Suc (length (takeWhile P s))])"

definition quote :: "(char \<Rightarrow> string \<Rightarrow> 'r option) \<Rightarrow> string \<Rightarrow> 'r option" where
  "quote k s = (case s of [] \<Rightarrow> None | c # r \<Rightarrow> if isQuote c then k c r else None)"

definition optional_lit :: "string \<Rightarrow> (string \<Rightarrow> 'r option) \<Rightarrow> string \<Rightarrow> 'r option" where
  "optional_lit p k s = (case lit p k s of Some r \<Rightarrow> Some r | None \<Rightarrow> k s)"

definition at_end :: "'r \<Rightarrow> string \<Rightarrow> 'r option" where
  "at_end r s = (if s = [] then Some r else None)"

definition alternative ::
  "(string \<Rightarrow> 'r option) \<Rightarrow> (string \<Rightarrow> 'r option) \<Rightarrow> string \<Rightarrow> 'r option" where
  "alternative a b s = (case a s of Some r \<Rightarrow> Some r | None \<Rightarrow> b s)"

text \<open>
  \<^verbatim>\<open>('|")(.*)('|");?$\<close>, the end of both expressions, and \<^verbatim>\<open>\s+from\s+\<close> before it. The
  result holds the groups of the match.
\<close>

definition quoted_path :: "(char \<Rightarrow> string \<Rightarrow> char \<Rightarrow> 'r) \<Rightarrow> string \<Rightarrow> 'r option" where
  "quoted_path r =
     quote (\<lambda>q1. greedy (\<lambda>c. \<not> isLineTerminator c) 0
       (\<lambda>p. quote (\<lambda>q2. optional_lit '';'' (at_end (r q1 p q2)))))"

definition from_clause ::
  "string \<Rightarrow> string option \<Rightarrow> string \<Rightarrow> (string \<times> string option \<times> char \<times> string \<times> char) option" where
  "from_clause g1 g2 =
     greedy isWhiteSpace 1 (\<lambda>_. lit ''from'' (greedy isWhiteSpace 1
       (\<lambda>_. quoted_path (\<lambda>q1 p q2. (g1, g2, q1, p, q2)))))"

text \<open>
  Lines 24 and 25. The groups of \<^verbatim>\<open>IMPORT_FROM_REGEX\<close> are the selector text, the selector
  text again when it was not matched as \<^verbatim>\<open>*\<close>, the opening quote, the path and the closing
  quote.
\<close>

definition IMPORT_FROM_REGEX ::
  "string \<Rightarrow> (string \<times> string option \<times> char \<times> string \<times> char) option" where
  "IMPORT_FROM_REGEX =
     lit ''import'' (greedy isWhiteSpace 1
       (\<lambda>_. alternative
          (lit ''*'' (from_clause ''*'' None))
          (greedy (\<lambda>c. \<not> isLineTerminator c) 0 (\<lambda>g. from_clause g (Some g)))))"

definition IMPORT_DEFAULT_REGEX :: "string \<Rightarrow> (char \<times> string \<times> char) option" where
  "IMPORT_DEFAULT_REGEX =
     lit ''import'' (greedy isWhiteSpace 1 (\<lambda>_. quoted_path (\<lambda>q1 p q2. (q1, p, q2))))"

text \<open>The message of the error of lines 53 to 58.\<close>

definition error_text :: "string \<Rightarrow> string" where
  "error_text importLine =
     [CHR 0x0A] @ ''    Import statement is not valid: '' @ importLine @ [CHR 0x0A]
     @ ''    If you want to have comments starting with '' @ [CHR 0x27] @ ''# import'' @ [CHR 0x27]
     @ '', please use '' @ [CHR 0x27, CHR 0x27, CHR 0x27] @ '' instead!'' @ [CHR 0x0A]
     @ ''    You can only have '' @ [CHR 0x27] @ ''import'' @ [CHR 0x27]
     @ '' statements in the following pattern;'' @ [CHR 0x0A]
     @ ''    # import [Type].[Field] from [File]'' @ [CHR 0x0A] @ ''  ''"

text \<open>
  Lines 33 to 59. A match of the first expression with an empty path leaves the
  conditional and reaches the \<^verbatim>\<open>throw\<close>.
\<close>

definition parseImportLine :: "string \<Rightarrow> error + RawModule" where
  "parseImportLine importLine =
     (case IMPORT_FROM_REGEX importLine of
        Some (wildcard, importsString, q1, fromPath, q2) \<Rightarrow>
          if fromPath \<noteq> [] then
            (if wildcard = ''*'' then Inr \<lparr>m_imports = [''*''], m_from = fromPath\<rparr>
             else
               (case importsString of
                  None \<Rightarrow> Inl TypeError
                | Some i \<Rightarrow>
                    Inr \<lparr>m_imports = map trim (split_on (CHR '','') i), m_from = fromPath\<rparr>))
          else Inl (ImportError (error_text importLine))
      | None \<Rightarrow>
          (case IMPORT_DEFAULT_REGEX importLine of
             Some (q1, fromPath, q2) \<Rightarrow> Inr \<lparr>m_imports = [''*''], m_from = fromPath\<rparr>
           | None \<Rightarrow> Inl (ImportError (error_text importLine))))"

text \<open>\<^verbatim>\<open>Array.prototype.map\<close> with a callback that can throw.\<close>

fun mapE :: "('a \<Rightarrow> error + 'b) \<Rightarrow> 'a list \<Rightarrow> error + 'b list" where
  "mapE f [] = Inr []"
| "mapE f (x # xs) =
     (case f x of
        Inl e \<Rightarrow> Inl e
      | Inr y \<Rightarrow> (case mapE f xs of Inl e \<Rightarrow> Inl e | Inr ys \<Rightarrow> Inr (y # ys)))"

text \<open>
  Lines 67 to 74. \<^verbatim>\<open>l.replace('#', '')\<close> removes the first \<^verbatim>\<open>#\<close> of the line.
\<close>

definition parseSDL :: "string \<Rightarrow> error + RawModule list" where
  "parseSDL sdl =
     mapE parseImportLine
       (map (\<lambda>l. trim (remove1 (CHR ''#'') l))
          (filter (\<lambda>l. startsWith l ''# import '' \<or> startsWith l ''#import '')
             (map trim (split_on (CHR 0x0A) sdl))))"

subsection \<open>The regular expressions\<close>

lemma first_some_sound: "first_some f xs = Some r \<Longrightarrow> \<exists>x \<in> set xs. f x = Some r"
  by (induction xs) (auto split: option.splits)

lemma first_some_at:
  assumes "\<forall>y \<in> set xs. f y = None" and "f x = Some r"
  shows "first_some f (xs @ x # ys) = Some r"
  using assms by (induction xs) auto

lemma first_some_None: "(\<forall>x \<in> set xs. f x = None) \<Longrightarrow> first_some f xs = None"
  by (induction xs) auto

lemma greedy_sound:
  assumes "greedy P m k s = Some r"
  shows "\<exists>n. m \<le> n \<and> n \<le> length (takeWhile P s) \<and> k (take n s) (drop n s) = Some r"
proof -
  from first_some_sound [OF assms [unfolded greedy_def]]
  obtain n where "n \<in> set (rev [m ..< Suc (length (takeWhile P s))])"
    and "k (take n s) (drop n s) = Some r"
    by blast
  then show ?thesis
    by auto
qed

lemma greedy_at:
  assumes "m \<le> n" and "n \<le> length (takeWhile P s)"
    and "k (take n s) (drop n s) = Some r"
    and "\<And>j. n < j \<Longrightarrow> j \<le> length (takeWhile P s) \<Longrightarrow> k (take j s) (drop j s) = None"
  shows "greedy P m k s = Some r"
proof -
  let ?N = "length (takeWhile P s)"
  have "[m ..< n + (Suc ?N - n)] = [m ..< n] @ [n ..< n + (Suc ?N - n)]"
    using assms(1) by (rule upt_add_eq_append)
  moreover have "n + (Suc ?N - n) = Suc ?N"
    using assms(2) by simp
  moreover have "[n ..< Suc ?N] = n # [Suc n ..< Suc ?N]"
    using assms(2) by (simp add: upt_conv_Cons)
  ultimately have "[m ..< Suc ?N] = [m ..< n] @ n # [Suc n ..< Suc ?N]"
    by simp
  then have "rev [m ..< Suc ?N] = rev [Suc n ..< Suc ?N] @ n # rev [m ..< n]"
    by simp
  moreover have "\<forall>j \<in> set (rev [Suc n ..< Suc ?N]). k (take j s) (drop j s) = None"
    using assms(4) by auto
  ultimately show ?thesis
    unfolding greedy_def using first_some_at [where f = "\<lambda>n. k (take n s) (drop n s)"] assms(3)
    by simp
qed

lemma greedy_first:
  assumes "m \<le> length (takeWhile P s)"
    and "k (take (length (takeWhile P s)) s) (drop (length (takeWhile P s)) s) = Some r"
  shows "greedy P m k s = Some r"
  using assms by (intro greedy_at [of m "length (takeWhile P s)" P s k r]) simp_all

lemma greedy_None:
  assumes "\<And>n. m \<le> n \<Longrightarrow> n \<le> length (takeWhile P s) \<Longrightarrow> k (take n s) (drop n s) = None"
  shows "greedy P m k s = None"
  unfolding greedy_def by (rule first_some_None) (use assms in auto)

lemma takeWhile_run:
  assumes "\<forall>c \<in> set u. P c" and "v = [] \<or> \<not> P (hd v)"
  shows "takeWhile P (u @ v) = u"
  using assms by (cases v) (auto simp: takeWhile_append2 [rule_format])

lemma lit_append [simp]: "lit p k (p @ s) = k s"
  by (simp add: lit_def startsWith_def)

lemma lit_sound: "lit p k s = Some r \<Longrightarrow> \<exists>t. s = p @ t \<and> k t = Some r"
  by (auto simp: lit_def startsWith_def split: if_splits) (metis append_take_drop_id)

lemma quote_sound: "quote k s = Some r \<Longrightarrow> \<exists>q t. s = q # t \<and> isQuote q \<and> k q t = Some r"
  by (cases s) (auto simp: quote_def split: if_splits)

lemma quote_Cons [simp]: "isQuote q \<Longrightarrow> quote k (q # t) = k q t"
  by (simp add: quote_def)

lemma optional_semi_sound:
  "optional_lit '';'' (at_end r) s = Some x \<Longrightarrow> (s = [] \<or> s = '';'') \<and> x = r"
  by (auto simp: optional_lit_def at_end_def lit_def startsWith_def split: option.splits if_splits)

lemma optional_semi_exact:
  "optional_lit '';'' (at_end r) [] = Some r" "optional_lit '';'' (at_end r) '';'' = Some r"
  by (simp_all add: optional_lit_def at_end_def lit_def startsWith_def)

lemma take_takeWhile_all:
  assumes "n \<le> length (takeWhile P s)"
  shows "\<forall>c \<in> set (take n s). P c"
proof -
  have "take n s = take n (takeWhile P s @ dropWhile P s)"
    by simp
  also have "\<dots> = take n (takeWhile P s)"
    using assms by (simp only: take_append) simp
  finally have "set (take n s) \<subseteq> set (takeWhile P s)"
    by (simp add: set_take_subset)
  then show ?thesis
    by (blast dest: set_takeWhileD)
qed

lemma quote_not_space [simp]: "isQuote c \<Longrightarrow> \<not> isWhiteSpace c"
  by (auto simp: isQuote_def isWhiteSpace_def)

lemma quote_not_terminator [simp]: "isQuote c \<Longrightarrow> \<not> isLineTerminator c"
  by (auto simp: isQuote_def isLineTerminator_def)

lemma terminator_is_space: "isLineTerminator c \<Longrightarrow> isWhiteSpace c"
  by (auto simp: isLineTerminator_def isWhiteSpace_def)

definition is_semi :: "string \<Rightarrow> bool" where
  "is_semi s = (s = [] \<or> s = '';'')"

lemma quoted_path_sound:
  assumes "quoted_path R s = Some x"
  shows "\<exists>q1 p q2 semi. s = q1 # p @ q2 # semi \<and> isQuote q1 \<and> isQuote q2 \<and> is_semi semi
           \<and> (\<forall>c \<in> set p. \<not> isLineTerminator c) \<and> x = R q1 p q2"
proof -
  from quote_sound [OF assms [unfolded quoted_path_def]] obtain q1 t where
    s: "s = q1 # t" and q1: "isQuote q1"
    and g: "greedy (\<lambda>c. \<not> isLineTerminator c) 0
              (\<lambda>p. quote (\<lambda>q2. optional_lit '';'' (at_end (R q1 p q2)))) t = Some x"
    by blast
  from greedy_sound [OF g] obtain n where
    n: "n \<le> length (takeWhile (\<lambda>c. \<not> isLineTerminator c) t)"
    and k: "quote (\<lambda>q2. optional_lit '';'' (at_end (R q1 (take n t) q2))) (drop n t) = Some x"
    by blast
  from quote_sound [OF k] obtain q2 semi where
    d: "drop n t = q2 # semi" and q2: "isQuote q2"
    and o: "optional_lit '';'' (at_end (R q1 (take n t) q2)) semi = Some x"
    by blast
  from optional_semi_sound [OF o] have semi: "is_semi semi" and x: "x = R q1 (take n t) q2"
    by (simp_all add: is_semi_def)
  have "t = take n t @ q2 # semi"
    using d by (metis append_take_drop_id)
  with s q1 q2 semi x take_takeWhile_all [OF n] show ?thesis
    by blast
qed

lemma semi_no_quote: "is_semi semi \<Longrightarrow> quote k (drop i semi) = None"
proof -
  assume "is_semi semi"
  then have "drop i semi = [] \<or> drop i semi = '';''"
    unfolding is_semi_def by (cases i) auto
  then show ?thesis
    by (auto simp: quote_def isQuote_def)
qed

lemma semi_accepts: "is_semi semi \<Longrightarrow> optional_lit '';'' (at_end r) semi = Some r"
  unfolding is_semi_def by (elim disjE) (simp_all add: optional_semi_exact)

lemma semi_no_terminator: "is_semi semi \<Longrightarrow> c \<in> set semi \<Longrightarrow> \<not> isLineTerminator c"
  unfolding is_semi_def by (elim disjE) (simp_all add: isLineTerminator_def)

lemma quoted_path_exact:
  assumes "isQuote q1" and "isQuote q2" and "is_semi semi"
    and "\<forall>c \<in> set p. \<not> isLineTerminator c"
  shows "quoted_path R (q1 # p @ q2 # semi) = Some (R q1 p q2)"
proof -
  let ?t = "p @ q2 # semi"
  let ?k = "\<lambda>p. quote (\<lambda>q2. optional_lit '';'' (at_end (R q1 p q2)))"
  have here: "?k (take (length p) ?t) (drop (length p) ?t) = Some (R q1 p q2)"
    using assms(2) semi_accepts [OF assms(3)] by simp
  have later: "?k (take j ?t) (drop j ?t) = None" if "length p < j" for j
  proof -
    from that have "drop j ?t = drop (j - Suc (length p)) semi"
      by (simp add: drop_Cons')
    then show ?thesis
      by (simp only: semi_no_quote [OF assms(3)])
  qed
  have "\<forall>c \<in> set ?t. \<not> isLineTerminator c"
    using assms(2,4) semi_no_terminator [OF assms(3)] by auto
  then have "takeWhile (\<lambda>c. \<not> isLineTerminator c) ?t = ?t"
    by (simp only: takeWhile_eq_all_conv)
  then have len: "length p \<le> length (takeWhile (\<lambda>c. \<not> isLineTerminator c) ?t)"
    by simp
  have "greedy (\<lambda>c. \<not> isLineTerminator c) 0 ?k ?t = Some (R q1 p q2)"
    using len here later
    by (intro greedy_at [where n = "length p" and k = ?k and r = "R q1 p q2"]) simp_all
  with assms(1) show ?thesis
    by (simp add: quoted_path_def)
qed

definition spaces :: "string \<Rightarrow> bool" where
  "spaces w = (w \<noteq> [] \<and> (\<forall>c \<in> set w. isWhiteSpace c))"

lemma greedy_spaces_sound:
  assumes "greedy isWhiteSpace 1 (\<lambda>_. k) s = Some r"
  shows "\<exists>w t. s = w @ t \<and> spaces w \<and> k t = Some r"
proof -
  from greedy_sound [OF assms] obtain n where
    n: "1 \<le> n" "n \<le> length (takeWhile isWhiteSpace s)" and k: "k (drop n s) = Some r"
    by blast
  from n have "take n s \<noteq> []"
    by (cases s) auto
  with take_takeWhile_all [OF n(2)] have "spaces (take n s)"
    by (simp add: spaces_def)
  moreover have "s = take n s @ drop n s"
    by simp
  ultimately show ?thesis
    using k by blast
qed

lemma greedy_spaces_exact:
  assumes "spaces w" and "t = [] \<or> \<not> isWhiteSpace (hd t)" and "k t = Some r"
  shows "greedy isWhiteSpace 1 (\<lambda>_. k) (w @ t) = Some r"
proof -
  have tw: "takeWhile isWhiteSpace (w @ t) = w"
    using assms(1,2) by (intro takeWhile_run) (auto simp: spaces_def)
  show ?thesis
    using assms(1,3) by (intro greedy_first) (auto simp: tw spaces_def Suc_le_eq)
qed

lemma from_clause_sound:
  assumes "from_clause g1 g2 t = Some r"
  shows "\<exists>w w3 q1 p q2 semi. t = w @ ''from'' @ w3 @ q1 # p @ q2 # semi
           \<and> spaces w \<and> spaces w3 \<and> isQuote q1 \<and> isQuote q2 \<and> is_semi semi
           \<and> (\<forall>c \<in> set p. \<not> isLineTerminator c) \<and> r = (g1, g2, q1, p, q2)"
proof -
  from greedy_spaces_sound [OF assms [unfolded from_clause_def]] obtain w t1 where
    t: "t = w @ t1" and w: "spaces w"
    and 1: "lit ''from'' (greedy isWhiteSpace 1
       (\<lambda>_. quoted_path (\<lambda>q1 p q2. (g1, g2, q1, p, q2)))) t1 = Some r"
    by blast
  from lit_sound [OF 1] obtain t2 where
    t1: "t1 = ''from'' @ t2"
    and 2: "greedy isWhiteSpace 1 (\<lambda>_. quoted_path (\<lambda>q1 p q2. (g1, g2, q1, p, q2))) t2 = Some r"
    by blast
  from greedy_spaces_sound [OF 2] obtain w3 t3 where
    t2: "t2 = w3 @ t3" and w3: "spaces w3"
    and 3: "quoted_path (\<lambda>q1 p q2. (g1, g2, q1, p, q2)) t3 = Some r"
    by blast
  from quoted_path_sound [OF 3] obtain q1 p q2 semi where
    t3: "t3 = q1 # p @ q2 # semi" and rest: "isQuote q1" "isQuote q2" "is_semi semi"
      "\<forall>c \<in> set p. \<not> isLineTerminator c" "r = (g1, g2, q1, p, q2)"
    by blast
  have "t = w @ ''from'' @ w3 @ q1 # p @ q2 # semi"
    by (simp add: t t1 t2 t3)
  with w w3 rest show ?thesis
    by blast
qed

lemma from_clause_exact:
  assumes "spaces w" and "spaces w3" and "isQuote q1" and "isQuote q2" and "is_semi semi"
    and "\<forall>c \<in> set p. \<not> isLineTerminator c"
  shows "from_clause g1 g2 (w @ ''from'' @ w3 @ q1 # p @ q2 # semi) = Some (g1, g2, q1, p, q2)"
proof -
  have 3: "quoted_path (\<lambda>q1 p q2. (g1, g2, q1, p, q2)) (q1 # p @ q2 # semi) = Some (g1, g2, q1, p, q2)"
    by (rule quoted_path_exact) (fact assms)+
  have 2: "greedy isWhiteSpace 1 (\<lambda>_. quoted_path (\<lambda>q1 p q2. (g1, g2, q1, p, q2)))
             (w3 @ q1 # p @ q2 # semi) = Some (g1, g2, q1, p, q2)"
    using assms(2,3) 3
    by (intro greedy_spaces_exact
          [where k = "quoted_path (\<lambda>q1 p q2. (g1, g2, q1, p, q2))" and t = "q1 # p @ q2 # semi"])
       simp_all
  have 1: "lit ''from'' (greedy isWhiteSpace 1 (\<lambda>_. quoted_path (\<lambda>q1 p q2. (g1, g2, q1, p, q2))))
             (''from'' @ w3 @ q1 # p @ q2 # semi) = Some (g1, g2, q1, p, q2)"
    using 2 by (simp only: lit_append)
  show ?thesis
    unfolding from_clause_def using assms(1) 1
    by (intro greedy_spaces_exact
          [where k = "lit ''from'' (greedy isWhiteSpace 1
                    (\<lambda>_. quoted_path (\<lambda>q1 p q2. (g1, g2, q1, p, q2))))"
             and t = "''from'' @ w3 @ q1 # p @ q2 # semi"])
       (simp_all add: isWhiteSpace_def)
qed

lemma first_marker_unique:
  assumes "A @ x # r = B @ y # r'"
    and "\<forall>c \<in> set A. \<not> P c" and "\<forall>c \<in> set B. \<not> P c" and "P x" and "P y"
  shows "A = B \<and> x = y \<and> r = r'"
proof -
  have "takeWhile (\<lambda>c. \<not> P c) (A @ x # r) = A"
    using assms(2,4) by (simp add: takeWhile_append2 [rule_format])
  moreover have "takeWhile (\<lambda>c. \<not> P c) (B @ y # r') = B"
    using assms(3,5) by (simp add: takeWhile_append2 [rule_format])
  ultimately have "A = B"
    using assms(1) by simp
  with assms(1) show ?thesis
    by simp
qed

definition quote_free :: "string \<Rightarrow> bool" where
  "quote_free s = (\<forall>c \<in> set s. \<not> isQuote c)"

lemma quote_free_filter: "quote_free s \<longleftrightarrow> filter isQuote s = []"
  by (simp add: quote_free_def filter_empty_conv)

lemma semi_quote_free: "is_semi s \<Longrightarrow> quote_free s"
  by (auto simp: is_semi_def quote_free_def isQuote_def)

lemma spaces_quote_free: "spaces w \<Longrightarrow> quote_free w"
  by (auto simp: spaces_def quote_free_def)

lemma two_quotes_unique:
  assumes eq: "A @ q1 # p @ q2 # semi = B @ q1' # p' @ q2' # semi'"
    and A: "quote_free A" and p: "quote_free p" and semi: "quote_free semi"
    and q: "isQuote q1" "isQuote q2" "isQuote q1'" "isQuote q2'"
  shows "A = B \<and> q1 = q1' \<and> p = p' \<and> q2 = q2' \<and> semi = semi'"
proof -
  have "filter isQuote (A @ q1 # p @ q2 # semi) = [q1, q2]"
    using A p semi q by (simp add: quote_free_filter)
  then have "filter isQuote B @ q1' # filter isQuote p' @ q2' # filter isQuote semi' = [q1, q2]"
    using q unfolding eq by simp
  then have B: "quote_free B" and p': "quote_free p'"
    by (auto simp: quote_free_filter append_eq_Cons_conv Cons_eq_append_conv)
  from first_marker_unique [OF eq, of isQuote] A B q
  have 1: "A = B" "q1 = q1'" and rest: "p @ q2 # semi = p' @ q2' # semi'"
    by (simp_all add: quote_free_def)
  from first_marker_unique [OF rest, of isQuote] p p' q
  have "p = p'" "q2 = q2'" "semi = semi'"
    by (simp_all add: quote_free_def)
  with 1 show ?thesis
    by simp
qed

lemma from_spaces_unique:
  assumes "U @ ''from'' @ a = V @ ''from'' @ b"
    and "\<forall>c \<in> set a. isWhiteSpace c" and "\<forall>c \<in> set b. isWhiteSpace c"
  shows "U = V \<and> a = b"
proof -
  have "rev (U @ ''from'' @ a) = rev (V @ ''from'' @ b)"
    using assms(1) by simp
  then have "rev a @ CHR ''m'' # (''orf'' @ rev U) = rev b @ CHR ''m'' # (''orf'' @ rev V)"
    by simp
  from first_marker_unique [OF this, of "\<lambda>c. \<not> isWhiteSpace c"] assms(2,3)
  have "rev a = rev b" and "''orf'' @ rev U = ''orf'' @ rev V"
    by (simp_all add: isWhiteSpace_def)
  then show ?thesis
    by simp
qed

text \<open>The text after the selectors of a line of the first form.\<close>

definition from_part :: "string \<Rightarrow> char \<Rightarrow> string \<Rightarrow> char \<Rightarrow> string \<Rightarrow> string" where
  "from_part ws3 q1 p q2 semi = ''from'' @ ws3 @ q1 # p @ q2 # semi"

lemma from_clause_position:
  assumes eq: "Y @ from_part ws3 q1 p q2 semi = pre @ t"
    and t: "from_clause g1 g2 t = Some r"
    and Y: "quote_free Y" and ws3: "spaces ws3" and p: "quote_free p" and semi: "is_semi semi"
    and q: "isQuote q1" "isQuote q2"
  shows "\<exists>w. spaces w \<and> Y = pre @ w \<and> r = (g1, g2, q1, p, q2)"
proof -
  from from_clause_sound [OF t] obtain w w3 q1' p' q2' semi' where
    t': "t = w @ ''from'' @ w3 @ q1' # p' @ q2' # semi'"
    and w: "spaces w" and w3: "spaces w3" and q': "isQuote q1'" "isQuote q2'"
    and r: "r = (g1, g2, q1', p', q2')"
    by blast
  have "(Y @ ''from'' @ ws3) @ q1 # p @ q2 # semi = (pre @ w @ ''from'' @ w3) @ q1' # p' @ q2' # semi'"
    using eq by (simp add: from_part_def t')
  moreover have "quote_free (Y @ ''from'' @ ws3)"
    using Y spaces_quote_free [OF ws3] by (auto simp: quote_free_def isQuote_def)
  ultimately have "Y @ ''from'' @ ws3 = pre @ w @ ''from'' @ w3 \<and> q1 = q1' \<and> p = p' \<and> q2 = q2'
                     \<and> semi = semi'"
    by (rule two_quotes_unique) (fact p semi_quote_free [OF semi] q q')+
  then have front: "Y @ ''from'' @ ws3 = pre @ w @ ''from'' @ w3" and same: "q1 = q1'" "p = p'" "q2 = q2'"
    by simp_all
  from front have "Y @ ''from'' @ ws3 = (pre @ w) @ ''from'' @ w3"
    by simp
  from from_spaces_unique [OF this] ws3 w3 have "Y = pre @ w"
    by (simp add: spaces_def)
  with w r same show ?thesis
    by blast
qed

lemma takeWhile_covers:
  assumes "\<forall>c \<in> set (take n s). P c" and "n \<le> length s"
  shows "n \<le> length (takeWhile P s)"
proof -
  have "takeWhile P (take n s @ drop n s) = take n s @ takeWhile P (drop n s)"
    using assms(1) by (intro takeWhile_append2) blast
  then have "takeWhile P s = take n s @ takeWhile P (drop n s)"
    by (simp only: append_take_drop_id)
  then have "length (takeWhile P s) = length (take n s) + length (takeWhile P (drop n s))"
    by (metis length_append)
  with assms(2) show ?thesis
    by simp
qed

lemma from_regex_wildcard:
  assumes "spaces ws1" and "spaces ws2" and "spaces ws3"
    and "isQuote q1" and "isQuote q2" and "is_semi semi"
    and "\<forall>c \<in> set p. \<not> isLineTerminator c"
  shows "IMPORT_FROM_REGEX (''import'' @ ws1 @ ''*'' @ ws2 @ from_part ws3 q1 p q2 semi)
           = Some (''*'', None, q1, p, q2)"
proof -
  let ?tail = "ws2 @ from_part ws3 q1 p q2 semi"
  let ?k = "alternative (lit ''*'' (from_clause ''*'' None))
              (greedy (\<lambda>c. \<not> isLineTerminator c) 0 (\<lambda>g. from_clause g (Some g)))"
  have "from_clause ''*'' None ?tail = Some (''*'', None, q1, p, q2)"
    unfolding from_part_def by (rule from_clause_exact) (fact assms)+
  then have "lit ''*'' (from_clause ''*'' None) (''*'' @ ?tail) = Some (''*'', None, q1, p, q2)"
    by (simp only: lit_append)
  then have k: "?k (''*'' @ ?tail) = Some (''*'', None, q1, p, q2)"
    by (simp add: alternative_def)
  have "greedy isWhiteSpace 1 (\<lambda>_. ?k) (ws1 @ ''*'' @ ?tail) = Some (''*'', None, q1, p, q2)"
    using assms(1) k
    by (intro greedy_spaces_exact [where k = ?k and t = "''*'' @ ?tail"])
       (simp_all add: isWhiteSpace_def)
  then show ?thesis
    by (simp only: IMPORT_FROM_REGEX_def lit_append One_nat_def)
qed

lemma from_regex_selectors:
  assumes S: "S \<noteq> []" "\<not> isWhiteSpace (hd S)" "\<not> isWhiteSpace (last S)" "quote_free S"
      "\<forall>c \<in> set S. \<not> isLineTerminator c"
    and ws: "spaces ws1" "spaces ws2" "\<forall>c \<in> set (butlast ws2). \<not> isLineTerminator c" "spaces ws3"
    and q: "isQuote q1" "isQuote q2" and semi: "is_semi semi"
    and p: "quote_free p" "\<forall>c \<in> set p. \<not> isLineTerminator c"
  shows "IMPORT_FROM_REGEX (''import'' @ ws1 @ S @ ws2 @ from_part ws3 q1 p q2 semi)
           = Some (''*'', None, q1, p, q2) \<and> S = ''*''
       \<or> IMPORT_FROM_REGEX (''import'' @ ws1 @ S @ ws2 @ from_part ws3 q1 p q2 semi)
           = Some (S @ butlast ws2, Some (S @ butlast ws2), q1, p, q2)"
proof -
  let ?F = "from_part ws3 q1 p q2 semi"
  let ?r2 = "S @ ws2 @ ?F"
  let ?a1 = "lit ''*'' (from_clause ''*'' None)"
  let ?g = "\<lambda>g. from_clause g (Some g)"
  let ?a2 = "greedy (\<lambda>c. \<not> isLineTerminator c) 0 ?g"
  let ?k = "alternative ?a1 ?a2"
  have Y: "quote_free (S @ ws2)"
    using S(4) spaces_quote_free [OF ws(2)] by (auto simp: quote_free_def)
  have ws2_ne: "ws2 \<noteq> []"
    using ws(2) by (simp add: spaces_def)
  have position: "\<exists>w. spaces w \<and> S @ ws2 = pre @ w \<and> r = (g1, g2, q1, p, q2)"
    if "?r2 = pre @ t" and "from_clause g1 g2 t = Some r" for pre t g1 g2 r
    using that Y ws(4) p(1) semi q
    by (intro from_clause_position [where t = t and semi = semi and ?ws3.0 = ws3]) simp_all
  have start: "\<And>r. ?k ?r2 = Some r \<Longrightarrow> IMPORT_FROM_REGEX (''import'' @ ws1 @ ?r2) = Some r"
  proof -
    fix r assume "?k ?r2 = Some r"
    then have "greedy isWhiteSpace 1 (\<lambda>_. ?k) (ws1 @ ?r2) = Some r"
      using ws(1) S(1,2)
      by (intro greedy_spaces_exact [where k = ?k and t = ?r2]) simp_all
    then show "IMPORT_FROM_REGEX (''import'' @ ws1 @ ?r2) = Some r"
      by (simp only: IMPORT_FROM_REGEX_def lit_append One_nat_def)
  qed
  show ?thesis
  proof (cases "?a1 ?r2")
    case (Some r)
    from lit_sound [OF Some] obtain t where t: "?r2 = ''*'' @ t" and fc: "from_clause ''*'' None t = Some r"
      by blast
    from position [OF t fc] obtain w where w: "spaces w" and eq: "S @ ws2 = ''*'' @ w"
      and r: "r = (''*'', None, q1, p, q2)"
      by blast
    have "S = ''*''"
    proof (rule ccontr)
      assume ne: "S \<noteq> ''*''"
      from eq S(1) obtain S' where S': "S = CHR ''*'' # S'" and rest: "S' @ ws2 = w"
        by (cases S) auto
      with ne have "S' \<noteq> []"
        by auto
      then have "last S = last S'" and "last S' \<in> set S'"
        using S' by auto
      with rest have "last S \<in> set w"
        by auto
      with w S(3) show False
        by (simp add: spaces_def)
    qed
    moreover have "?k ?r2 = Some r"
      using Some by (simp add: alternative_def)
    ultimately show ?thesis
      using start r by simp
  next
    case None
    let ?n = "length (S @ ws2) - 1"
    have split: "?r2 = (S @ butlast ws2) @ [last ws2] @ ?F"
      using ws2_ne by simp
    have len_n: "length (S @ butlast ws2) = ?n"
      using ws2_ne by (cases ws2 rule: rev_cases) auto
    have take_n: "take ?n ?r2 = S @ butlast ws2"
      using split len_n by (metis append_eq_conv_conj)
    have drop_n: "drop ?n ?r2 = [last ws2] @ ?F"
      using split len_n by (metis append_eq_conv_conj)
    have "spaces [last ws2]"
      using ws(2) ws2_ne by (simp add: spaces_def)
    then have "from_clause g (Some g) ([last ws2] @ ''from'' @ ws3 @ q1 # p @ q2 # semi)
                 = Some (g, Some g, q1, p, q2)" for g
      using ws(4) q semi p(2) by (intro from_clause_exact) simp_all
    then have fc: "from_clause g (Some g) ([last ws2] @ ?F) = Some (g, Some g, q1, p, q2)" for g
      by (simp only: from_part_def)
    have here: "?g (take ?n ?r2) (drop ?n ?r2)
                       = Some (S @ butlast ws2, Some (S @ butlast ws2), q1, p, q2)"
      by (simp only: take_n drop_n fc)
    have later: "?g (take j ?r2) (drop j ?r2) = None" if "?n < j" for j
    proof (rule ccontr)
      assume "?g (take j ?r2) (drop j ?r2) \<noteq> None"
      then obtain r where r: "from_clause (take j ?r2) (Some (take j ?r2)) (drop j ?r2) = Some r"
        by blast
      have "?r2 = take j ?r2 @ drop j ?r2"
        by (rule append_take_drop_id [symmetric])
      from position [OF this r] obtain w where w: "spaces w" and eq: "S @ ws2 = take j ?r2 @ w"
        by blast
      have 1: "length (take j ?r2) = min (length ?r2) j"
        by (rule length_take)
      have 2: "length ?r2 = length (S @ ws2) + length ?F"
        by (metis append_assoc length_append)
      have 3: "length (S @ ws2) = length (take j ?r2) + length w"
        using eq by (metis length_append)
      have 4: "0 < length (S @ ws2)"
        using S(1) by simp
      from 1 2 3 4 that have "length w = 0"
        by linarith
      with w show False
        by (simp add: spaces_def)
    qed
    have "\<forall>c \<in> set (take ?n ?r2). \<not> isLineTerminator c"
      unfolding take_n using S(5) ws(3) by auto
    then have len: "?n \<le> length (takeWhile (\<lambda>c. \<not> isLineTerminator c) ?r2)"
      by (rule takeWhile_covers) simp
    have "?a2 ?r2 = Some (S @ butlast ws2, Some (S @ butlast ws2), q1, p, q2)"
      using len here later
      by (intro greedy_at [where n = ?n and k = ?g]) simp_all
    with None have "?k ?r2 = Some (S @ butlast ws2, Some (S @ butlast ws2), q1, p, q2)"
      by (simp add: alternative_def)
    from start [OF this] show ?thesis
      by simp
  qed
qed

text \<open>
  The selector text of a line: bare names separated by commas, with optional blanks
  before and after every comma.
\<close>

fun selector_text :: "string \<Rightarrow> ((string \<times> string) \<times> string) list \<Rightarrow> string" where
  "selector_text n [] = n"
| "selector_text n (((b, a), m) # rest) = n @ b @ '','' @ a @ selector_text m rest"

definition bare_name :: "string \<Rightarrow> bool" where
  "bare_name n =
     (n \<noteq> [] \<and> (\<forall>c \<in> set n. \<not> isWhiteSpace c \<and> c \<noteq> CHR '','' \<and> \<not> isQuote c))"

definition blanks :: "string \<Rightarrow> bool" where
  "blanks w = (\<forall>c \<in> set w. isWhiteSpace c \<and> \<not> isLineTerminator c)"

definition selector_list :: "string \<Rightarrow> ((string \<times> string) \<times> string) list \<Rightarrow> bool" where
  "selector_list n rest =
     (bare_name n \<and> (\<forall>x \<in> set rest. blanks (fst (fst x)) \<and> blanks (snd (fst x)) \<and> bare_name (snd x)))"

lemma split_on_no_sep: "c \<notin> set u \<Longrightarrow> split_on c u = [u]"
  by (induction u) auto

lemma split_on_append: "c \<notin> set u \<Longrightarrow> split_on c (u @ c # v) = u # split_on c v"
  by (induction u) auto

lemma trim_padded:
  assumes "\<forall>c \<in> set a. isWhiteSpace c" and "\<forall>c \<in> set b. isWhiteSpace c"
    and "n \<noteq> []" and "\<not> isWhiteSpace (hd n)" and "\<not> isWhiteSpace (last n)"
  shows "trim (a @ n @ b) = n"
proof -
  from assms(3) obtain x n' where n: "n = x # n'"
    by (cases n) auto
  from assms(3) obtain n'' y where n2: "n = n'' @ [y]"
    by (cases n rule: rev_cases) auto
  have "dropWhile isWhiteSpace (a @ n @ b) = dropWhile isWhiteSpace (n @ b)"
    using assms(1) by (intro dropWhile_append2) blast
  also have "\<dots> = n @ b"
    using assms(4) n by simp
  finally have 1: "dropWhile isWhiteSpace (a @ n @ b) = n @ b" .
  have "dropWhile isWhiteSpace (rev b @ rev n) = dropWhile isWhiteSpace (rev n)"
    using assms(2) by (intro dropWhile_append2) simp
  also have "\<dots> = rev n"
    using assms(5) n2 by simp
  finally have 2: "dropWhile isWhiteSpace (rev b @ rev n) = rev n" .
  show ?thesis
    by (simp add: trim_def 1 2)
qed

lemma bare_name_ends:
  assumes "bare_name n"
  shows "n \<noteq> []" and "\<not> isWhiteSpace (hd n)" and "\<not> isWhiteSpace (last n)" and "CHR '','' \<notin> set n"
  using assms by (auto simp: bare_name_def)

lemma comma_not_space: "\<not> isWhiteSpace (CHR '','')"
  by (simp add: isWhiteSpace_def)

lemma blanks_no_comma: "blanks w \<Longrightarrow> CHR '','' \<notin> set w"
  unfolding blanks_def using comma_not_space by blast

lemma selectors_split:
  assumes "selector_list n rest" and "blanks a" and "\<forall>c \<in> set e. isWhiteSpace c" and "CHR '','' \<notin> set e"
  shows "map trim (split_on (CHR '','') (a @ selector_text n rest @ e)) = n # map snd rest"
  using assms
proof (induction rest arbitrary: n a)
  case Nil
  then have n: "bare_name n"
    by (simp add: selector_list_def)
  have "CHR '','' \<notin> set (a @ n @ e)"
    using bare_name_ends(4) [OF n] blanks_no_comma [OF Nil.prems(2)] Nil.prems(4) by simp
  then have "split_on (CHR '','') (a @ n @ e) = [a @ n @ e]"
    by (rule split_on_no_sep)
  moreover have "trim (a @ n @ e) = n"
    using Nil.prems(2,3) bare_name_ends(1-3) [OF n] by (intro trim_padded) (auto simp: blanks_def)
  ultimately show ?case
    by simp
next
  case (Cons x rest)
  obtain b a' m where x: "x = ((b, a'), m)"
    by (cases x) auto
  from Cons.prems(1) have n: "bare_name n" and b: "blanks b" and a': "blanks a'"
    and tl: "selector_list m rest"
    by (auto simp: selector_list_def x)
  have "CHR '','' \<notin> set (a @ n @ b)"
    using bare_name_ends(4) [OF n] blanks_no_comma [OF Cons.prems(2)] blanks_no_comma [OF b] by simp
  then have "split_on (CHR '','') ((a @ n @ b) @ CHR '','' # (a' @ selector_text m rest @ e))
               = (a @ n @ b) # split_on (CHR '','') (a' @ selector_text m rest @ e)"
    by (rule split_on_append)
  moreover have "trim (a @ n @ b) = n"
    using Cons.prems(2) b bare_name_ends(1-3) [OF n] by (intro trim_padded) (auto simp: blanks_def)
  moreover have "map trim (split_on (CHR '','') (a' @ selector_text m rest @ e)) = m # map snd rest"
    by (rule Cons.IH [OF tl a' Cons.prems(3,4)])
  ultimately show ?case
    by (simp add: x)
qed

definition plain_char :: "char \<Rightarrow> bool" where
  "plain_char c = (\<not> isQuote c \<and> \<not> isLineTerminator c)"

lemma bare_name_plain: "bare_name n \<Longrightarrow> c \<in> set n \<Longrightarrow> plain_char c"
  unfolding bare_name_def plain_char_def by (blast dest: terminator_is_space)

lemma blanks_plain: "blanks w \<Longrightarrow> c \<in> set w \<Longrightarrow> plain_char c"
  unfolding blanks_def plain_char_def by (blast dest: quote_not_space)

lemma comma_plain: "plain_char (CHR '','')"
  by (simp add: plain_char_def isQuote_def isLineTerminator_def)

lemma selector_text_plain:
  assumes "selector_list n rest" and "c \<in> set (selector_text n rest)"
  shows "plain_char c"
  using assms
proof (induction rest arbitrary: n)
  case Nil
  then show ?case
    by (simp add: selector_list_def bare_name_plain)
next
  case (Cons x rest)
  obtain b a m where x: "x = ((b, a), m)"
    by (cases x) auto
  from Cons.prems(1) have n: "bare_name n" and b: "blanks b" and a: "blanks a"
    and m: "selector_list m rest"
    by (auto simp: selector_list_def x)
  from Cons.prems(2) have "c \<in> set n \<or> c \<in> set b \<or> c = CHR '','' \<or> c \<in> set a
                             \<or> c \<in> set (selector_text m rest)"
    by (auto simp: x)
  then show ?case
    using bare_name_plain [OF n] blanks_plain [OF b] blanks_plain [OF a] comma_plain Cons.IH [OF m]
    by blast
qed

lemma selector_text_nonempty: "selector_list n rest \<Longrightarrow> selector_text n rest \<noteq> []"
proof -
  assume "selector_list n rest"
  then have "bare_name n"
    by (simp add: selector_list_def)
  then have "n \<noteq> []"
    by (rule bare_name_ends(1))
  then show ?thesis
    by (cases rest) auto
qed

lemma selector_text_hd: "selector_list n rest \<Longrightarrow> \<not> isWhiteSpace (hd (selector_text n rest))"
proof -
  assume "selector_list n rest"
  then have n: "bare_name n"
    by (simp add: selector_list_def)
  from bare_name_ends(1) [OF n] have "hd (selector_text n rest) = hd n"
    by (cases rest) auto
  with bare_name_ends(2) [OF n] show ?thesis
    by simp
qed

lemma selector_text_last: "selector_list n rest \<Longrightarrow> \<not> isWhiteSpace (last (selector_text n rest))"
proof (induction rest arbitrary: n)
  case Nil
  then show ?case
    by (simp add: selector_list_def bare_name_ends(3))
next
  case (Cons x rest)
  obtain b a m where x: "x = ((b, a), m)"
    by (cases x) auto
  from Cons.prems have m: "selector_list m rest"
    by (auto simp: selector_list_def x)
  from selector_text_nonempty [OF m] Cons.IH [OF m] show ?case
    by (simp add: x)
qed

lemma selector_text_star:
  assumes "selector_list n rest" and "selector_text n rest = ''*''"
  shows "n # map snd rest = [''*'']"
proof (cases rest)
  case Nil
  with assms(2) show ?thesis by simp
next
  case (Cons x rest')
  obtain b a m where x: "x = ((b, a), m)"
    by (cases x) auto
  have "CHR '','' \<in> set (selector_text n rest)"
    by (simp add: Cons x)
  with assms(2) show ?thesis
    by simp
qed

lemma parse_wildcard_line:
  assumes "spaces ws1" and "spaces ws2" and "spaces ws3"
    and "isQuote q1" and "isQuote q2" and "is_semi semi"
    and "\<forall>c \<in> set p. \<not> isLineTerminator c" and "p \<noteq> []"
  shows "parseImportLine (''import'' @ ws1 @ ''*'' @ ws2 @ from_part ws3 q1 p q2 semi)
           = Inr \<lparr>m_imports = [''*''], m_from = p\<rparr>"
  using from_regex_wildcard [OF assms(1-7)] assms(8)
  by (simp only: parseImportLine_def option.case prod.case if_True simp_thms)

lemma parse_selector_line:
  assumes sel: "selector_list n rest"
    and ws: "spaces ws1" "spaces ws2" "\<forall>c \<in> set (butlast ws2). \<not> isLineTerminator c" "spaces ws3"
    and q: "isQuote q1" "isQuote q2" and semi: "is_semi semi"
    and p: "quote_free p" "\<forall>c \<in> set p. \<not> isLineTerminator c" "p \<noteq> []"
  shows "parseImportLine (''import'' @ ws1 @ selector_text n rest @ ws2 @ from_part ws3 q1 p q2 semi)
           = Inr \<lparr>m_imports = n # map snd rest, m_from = p\<rparr>"
proof -
  let ?S = "selector_text n rest"
  let ?l = "''import'' @ ws1 @ ?S @ ws2 @ from_part ws3 q1 p q2 semi"
  have plain: "\<forall>c \<in> set ?S. plain_char c"
    using selector_text_plain [OF sel] by blast
  have S: "?S \<noteq> []" "\<not> isWhiteSpace (hd ?S)" "\<not> isWhiteSpace (last ?S)" "quote_free ?S"
    "\<forall>c \<in> set ?S. \<not> isLineTerminator c"
    using selector_text_nonempty [OF sel] selector_text_hd [OF sel] selector_text_last [OF sel] plain
    by (simp_all add: quote_free_def plain_char_def)
  from from_regex_selectors [OF S ws q semi p(1,2)]
  consider (star) "IMPORT_FROM_REGEX ?l = Some (''*'', None, q1, p, q2)" "?S = ''*''"
    | (sels) "IMPORT_FROM_REGEX ?l = Some (?S @ butlast ws2, Some (?S @ butlast ws2), q1, p, q2)"
    by blast
  then show ?thesis
  proof cases
    case star
    from selector_text_star [OF sel star(2)] star(1) p(3) show ?thesis
      by (simp only: parseImportLine_def option.case prod.case if_True simp_thms)
  next
    case sels
    have e: "\<forall>c \<in> set (butlast ws2). isWhiteSpace c"
      using ws(2) by (auto simp: spaces_def dest: in_set_butlastD)
    have "CHR '','' \<notin> set (butlast ws2)"
      using e comma_not_space by blast
    with selectors_split [OF sel _ e, of "[]"]
    have names: "map trim (split_on (CHR '','') (?S @ butlast ws2)) = n # map snd rest"
      by (simp add: blanks_def)
    show ?thesis
    proof (cases "?S @ butlast ws2 = ''*''")
      case True
      with names have "n # map snd rest = [''*'']"
        by (simp add: trim_def isWhiteSpace_def)
      with sels True p(3) show ?thesis
        by (simp only: parseImportLine_def option.case prod.case if_True simp_thms)
    next
      case False
      with sels names p(3) show ?thesis
        by (simp only: parseImportLine_def option.case prod.case if_True if_False simp_thms)
    qed
  qed
qed

text \<open>What the two regular expressions accept, written out.\<close>

definition accepted_from_form :: "string \<Rightarrow> bool" where
  "accepted_from_form l =
     (\<exists>ws1 g ws2 ws3 q1 p q2 semi.
        l = ''import'' @ ws1 @ g @ ws2 @ from_part ws3 q1 p q2 semi
        \<and> spaces ws1 \<and> spaces ws2 \<and> spaces ws3 \<and> isQuote q1 \<and> isQuote q2 \<and> is_semi semi
        \<and> (\<forall>c \<in> set g. \<not> isLineTerminator c) \<and> (\<forall>c \<in> set p. \<not> isLineTerminator c))"

definition accepted_default_form :: "string \<Rightarrow> bool" where
  "accepted_default_form l =
     (\<exists>ws1 q1 p q2 semi.
        l = ''import'' @ ws1 @ q1 # p @ q2 # semi
        \<and> spaces ws1 \<and> isQuote q1 \<and> isQuote q2 \<and> is_semi semi
        \<and> (\<forall>c \<in> set p. \<not> isLineTerminator c))"

lemma from_regex_sound:
  assumes "IMPORT_FROM_REGEX l = Some r"
  shows "\<exists>ws1 g t g1 g2. l = ''import'' @ ws1 @ g @ t \<and> spaces ws1
           \<and> (\<forall>c \<in> set g. \<not> isLineTerminator c) \<and> from_clause g1 g2 t = Some r"
proof -
  let ?a1 = "lit ''*'' (from_clause ''*'' None)"
  let ?g = "\<lambda>g. from_clause g (Some g)"
  let ?a2 = "greedy (\<lambda>c. \<not> isLineTerminator c) 0 ?g"
  from lit_sound [OF assms [unfolded IMPORT_FROM_REGEX_def]] obtain t0 where
    l: "l = ''import'' @ t0"
    and 0: "greedy isWhiteSpace 1 (\<lambda>_. alternative ?a1 ?a2) t0 = Some r"
    by blast
  from greedy_spaces_sound [OF 0] obtain ws1 t1 where
    t0: "t0 = ws1 @ t1" and ws1: "spaces ws1" and 1: "alternative ?a1 ?a2 t1 = Some r"
    by blast
  from 1 consider "?a1 t1 = Some r" | "?a2 t1 = Some r"
    by (auto simp: alternative_def split: option.splits)
  then show ?thesis
  proof cases
    case 1
    from lit_sound [OF 1] obtain t where "t1 = ''*'' @ t" and "from_clause ''*'' None t = Some r"
      by blast
    moreover have "\<forall>c \<in> set ''*''. \<not> isLineTerminator c"
      by (simp add: isLineTerminator_def)
    ultimately show ?thesis
      using l t0 ws1 by blast
  next
    case 2
    from greedy_sound [OF 2] obtain k where
      k: "k \<le> length (takeWhile (\<lambda>c. \<not> isLineTerminator c) t1)"
      and fc: "from_clause (take k t1) (Some (take k t1)) (drop k t1) = Some r"
      by blast
    have "t1 = take k t1 @ drop k t1"
      by (rule append_take_drop_id [symmetric])
    with l t0 have "l = ''import'' @ ws1 @ take k t1 @ drop k t1"
      by simp
    with take_takeWhile_all [OF k] ws1 fc show ?thesis
      by blast
  qed
qed

lemma from_regex_accepts:
  assumes "IMPORT_FROM_REGEX l = Some r"
  shows "accepted_from_form l"
proof -
  from from_regex_sound [OF assms] obtain ws1 g t g1 g2 where
    l: "l = ''import'' @ ws1 @ g @ t" and ws1: "spaces ws1"
    and g: "\<forall>c \<in> set g. \<not> isLineTerminator c" and fc: "from_clause g1 g2 t = Some r"
    by blast
  from from_clause_sound [OF fc] obtain w w3 q1 p q2 semi where
    t: "t = w @ ''from'' @ w3 @ q1 # p @ q2 # semi"
    and rest: "spaces w" "spaces w3" "isQuote q1" "isQuote q2" "is_semi semi"
      "\<forall>c \<in> set p. \<not> isLineTerminator c"
    by blast
  have "l = ''import'' @ ws1 @ g @ w @ from_part w3 q1 p q2 semi"
    by (simp add: l t from_part_def)
  with ws1 g rest show ?thesis
    unfolding accepted_from_form_def by blast
qed

lemma default_regex_accepts:
  assumes "IMPORT_DEFAULT_REGEX l = Some r"
  shows "accepted_default_form l"
proof -
  from lit_sound [OF assms [unfolded IMPORT_DEFAULT_REGEX_def]] obtain t0 where
    l: "l = ''import'' @ t0"
    and 0: "greedy isWhiteSpace 1 (\<lambda>_. quoted_path (\<lambda>q1 p q2. (q1, p, q2))) t0 = Some r"
    by blast
  from greedy_spaces_sound [OF 0] obtain ws1 t1 where
    t0: "t0 = ws1 @ t1" and ws1: "spaces ws1"
    and 1: "quoted_path (\<lambda>q1 p q2. (q1, p, q2)) t1 = Some r"
    by blast
  from quoted_path_sound [OF 1] obtain q1 p q2 semi where
    t1: "t1 = q1 # p @ q2 # semi"
    and rest: "isQuote q1" "isQuote q2" "is_semi semi" "\<forall>c \<in> set p. \<not> isLineTerminator c"
    by blast
  have "l = ''import'' @ ws1 @ q1 # p @ q2 # semi"
    by (simp add: l t0 t1)
  with ws1 rest show ?thesis
    unfolding accepted_default_form_def by blast
qed

lemma parse_rejects:
  assumes "\<not> accepted_from_form l" and "\<not> accepted_default_form l"
  shows "parseImportLine l = Inl (ImportError (error_text l))"
proof -
  have "IMPORT_FROM_REGEX l = None"
    using assms(1) from_regex_accepts by (cases "IMPORT_FROM_REGEX l") auto
  moreover have "IMPORT_DEFAULT_REGEX l = None"
    using assms(2) default_regex_accepts by (cases "IMPORT_DEFAULT_REGEX l") auto
  ultimately show ?thesis
    by (simp add: parseImportLine_def)
qed

lemma default_line_not_from:
  assumes "spaces ws1" and "isQuote q1" and "isQuote q2" and "is_semi semi" and "quote_free p"
  shows "IMPORT_FROM_REGEX (''import'' @ ws1 @ q1 # p @ q2 # semi) = None"
proof (rule ccontr)
  assume "IMPORT_FROM_REGEX (''import'' @ ws1 @ q1 # p @ q2 # semi) \<noteq> None"
  then obtain r where "IMPORT_FROM_REGEX (''import'' @ ws1 @ q1 # p @ q2 # semi) = Some r"
    by blast
  from from_regex_sound [OF this] obtain w1 g t g1 g2 where
    l: "''import'' @ ws1 @ q1 # p @ q2 # semi = ''import'' @ w1 @ g @ t"
    and fc: "from_clause g1 g2 t = Some r"
    by blast
  from from_clause_sound [OF fc] obtain w w3 q1' p' q2' semi' where
    t: "t = w @ ''from'' @ w3 @ q1' # p' @ q2' # semi'"
    and q': "isQuote q1'" "isQuote q2'"
    by blast
  from l have "ws1 @ q1 # p @ q2 # semi = w1 @ g @ t"
    by (simp only: same_append_eq)
  then have eq: "ws1 @ q1 # p @ q2 # semi = (w1 @ g @ w @ ''from'' @ w3) @ q1' # p' @ q2' # semi'"
    unfolding t by (simp only: append_assoc)
  from two_quotes_unique [OF eq spaces_quote_free [OF assms(1)] assms(5)
      semi_quote_free [OF assms(4)] assms(2,3) q']
  have "ws1 = w1 @ g @ w @ ''from'' @ w3" ..
  then have "CHR ''f'' \<in> set ws1"
    by simp
  moreover have "\<not> isWhiteSpace (CHR ''f'')"
    by (simp add: isWhiteSpace_def)
  ultimately show False
    using assms(1) unfolding spaces_def by blast
qed

lemma parse_default_line:
  assumes "spaces ws1" and "isQuote q1" and "isQuote q2" and "is_semi semi"
    and "quote_free p" and "\<forall>c \<in> set p. \<not> isLineTerminator c"
  shows "parseImportLine (''import'' @ ws1 @ q1 # p @ q2 # semi)
           = Inr \<lparr>m_imports = [''*''], m_from = p\<rparr>"
proof -
  have 1: "quoted_path (\<lambda>q1 p q2. (q1, p, q2)) (q1 # p @ q2 # semi) = Some (q1, p, q2)"
    by (rule quoted_path_exact) (fact assms)+
  have "greedy isWhiteSpace 1 (\<lambda>_. quoted_path (\<lambda>q1 p q2. (q1, p, q2))) (ws1 @ q1 # p @ q2 # semi)
          = Some (q1, p, q2)"
    using assms(1,2) 1
    by (intro greedy_spaces_exact
          [where k = "quoted_path (\<lambda>q1 p q2. (q1, p, q2))" and t = "q1 # p @ q2 # semi"])
       simp_all
  then have "IMPORT_DEFAULT_REGEX (''import'' @ ws1 @ q1 # p @ q2 # semi) = Some (q1, p, q2)"
    by (simp only: IMPORT_DEFAULT_REGEX_def lit_append One_nat_def)
  with default_line_not_from [OF assms(1-5)] show ?thesis
    by (simp only: parseImportLine_def option.case prod.case)
qed

lemma error_text_echo:
  "\<exists>a b c. error_text l = a @ l @ b @ ''# import [Type].[Field] from [File]'' @ c"
proof (intro exI)
  show "error_text l
          = ([CHR 0x0A] @ ''    Import statement is not valid: '') @ l
            @ ([CHR 0x0A] @ ''    If you want to have comments starting with '' @ [CHR 0x27]
               @ ''# import'' @ [CHR 0x27] @ '', please use '' @ [CHR 0x27, CHR 0x27, CHR 0x27]
               @ '' instead!'' @ [CHR 0x0A] @ ''    You can only have '' @ [CHR 0x27] @ ''import''
               @ [CHR 0x27] @ '' statements in the following pattern;'' @ [CHR 0x0A] @ ''    '')
            @ ''# import [Type].[Field] from [File]'' @ ([CHR 0x0A] @ ''  '')"
    by (simp add: error_text_def)
qed

subsection \<open>The grammar of the specification\<close>

text \<open>Blank space inside a line: at least one white-space character, none a line terminator.\<close>

definition gap :: "string \<Rightarrow> bool" where
  "gap w = (w \<noteq> [] \<and> blanks w)"

definition path_text :: "string \<Rightarrow> bool" where
  "path_text p = (p \<noteq> [] \<and> quote_free p \<and> (\<forall>c \<in> set p. \<not> isLineTerminator c))"

text \<open>
  The selector part of a line and the selector list it stands for: the wildcard token, or
  names separated by commas.
\<close>

definition selectors :: "string \<Rightarrow> string list \<Rightarrow> bool" where
  "selectors S sels =
     ((S = ''*'' \<and> sels = [''*''])
      \<or> (\<exists>n rest. selector_list n rest \<and> S = selector_text n rest \<and> sels = n # map snd rest))"

text \<open>
  The two forms of the grammar: \<^verbatim>\<open>import <selectors> from '<path>'\<close> and \<^verbatim>\<open>import '<path>'\<close>,
  the path between two equal quote characters, a semicolon optional at the end.
\<close>

definition grammar_from :: "string \<Rightarrow> string list \<Rightarrow> string \<Rightarrow> bool" where
  "grammar_from l sels p =
     (\<exists>ws1 S ws2 ws3 q semi.
        l = ''import'' @ ws1 @ S @ ws2 @ from_part ws3 q p q semi
        \<and> gap ws1 \<and> selectors S sels \<and> gap ws2 \<and> gap ws3
        \<and> isQuote q \<and> path_text p \<and> is_semi semi)"

definition grammar_default :: "string \<Rightarrow> string \<Rightarrow> bool" where
  "grammar_default l p =
     (\<exists>ws1 q semi.
        l = ''import'' @ ws1 @ q # p @ q # semi
        \<and> gap ws1 \<and> isQuote q \<and> path_text p \<and> is_semi semi)"

definition matches_grammar :: "string \<Rightarrow> bool" where
  "matches_grammar l = ((\<exists>sels p. grammar_from l sels p) \<or> (\<exists>p. grammar_default l p))"

lemma gap_spaces: "gap w \<Longrightarrow> spaces w"
  by (auto simp: gap_def spaces_def blanks_def)

lemma gap_butlast: "gap w \<Longrightarrow> \<forall>c \<in> set (butlast w). \<not> isLineTerminator c"
  by (auto simp: gap_def blanks_def dest: in_set_butlastD)

lemma selectors_list:
  assumes "selectors S sels"
  shows "\<exists>n rest. selector_list n rest \<and> S = selector_text n rest \<and> sels = n # map snd rest"
  using assms unfolding selectors_def
proof (elim disjE conjE)
  assume "S = ''*''" and "sels = [''*'']"
  moreover have "selector_list ''*'' []"
    by (simp add: selector_list_def bare_name_def isWhiteSpace_def isQuote_def)
  ultimately have "selector_list ''*'' [] \<and> S = selector_text ''*'' [] \<and> sels = ''*'' # map snd []"
    by simp
  then show ?thesis by blast
qed

lemma grammar_from_parses:
  assumes "grammar_from l sels p"
  shows "parseImportLine l = Inr \<lparr>m_imports = sels, m_from = p\<rparr>"
proof -
  from assms obtain ws1 S ws2 ws3 q semi where
    l: "l = ''import'' @ ws1 @ S @ ws2 @ from_part ws3 q p q semi"
    and g: "gap ws1" "gap ws2" "gap ws3" and S: "selectors S sels"
    and q: "isQuote q" and p: "path_text p" and semi: "is_semi semi"
    unfolding grammar_from_def by blast
  from selectors_list [OF S] obtain n rest where
    sel: "selector_list n rest" and St: "S = selector_text n rest" and sels: "sels = n # map snd rest"
    by blast
  note ws = gap_spaces [OF g(1)] gap_spaces [OF g(2)] gap_butlast [OF g(2)] gap_spaces [OF g(3)]
  from p have "quote_free p" and "\<forall>c \<in> set p. \<not> isLineTerminator c" and "p \<noteq> []"
    by (simp_all add: path_text_def)
  from parse_selector_line [OF sel ws q q semi this] show ?thesis
    by (simp add: l St sels)
qed

lemma grammar_default_parses:
  assumes "grammar_default l p"
  shows "parseImportLine l = Inr \<lparr>m_imports = [''*''], m_from = p\<rparr>"
proof -
  from assms obtain ws1 q semi where
    l: "l = ''import'' @ ws1 @ q # p @ q # semi"
    and g: "gap ws1" and q: "isQuote q" and p: "path_text p" and semi: "is_semi semi"
    unfolding grammar_default_def by blast
  from p have "quote_free p" and "\<forall>c \<in> set p. \<not> isLineTerminator c"
    by (simp_all add: path_text_def)
  from parse_default_line [OF gap_spaces [OF g] q q semi this] show ?thesis
    by (simp add: l)
qed

lemma first_some_complete: "x \<in> set xs \<Longrightarrow> f x \<noteq> None \<Longrightarrow> first_some f xs \<noteq> None"
  by (induction xs) (auto split: option.splits)

lemma greedy_complete:
  assumes "\<forall>c \<in> set u. P c" and "m \<le> length u" and "k u v \<noteq> None"
  shows "greedy P m k (u @ v) \<noteq> None"
proof -
  have "takeWhile P (u @ v) = u @ takeWhile P v"
    using assms(1) by (simp add: takeWhile_append2)
  then have "length u \<in> set (rev [m ..< Suc (length (takeWhile P (u @ v)))])"
    using assms(2) by simp
  moreover have "k (take (length u) (u @ v)) (drop (length u) (u @ v)) \<noteq> None"
    using assms(3) by simp
  ultimately show ?thesis
    unfolding greedy_def
    by (rule first_some_complete [where f = "\<lambda>n. k (take n (u @ v)) (drop n (u @ v))"])
qed

lemma alternative_complete: "b s \<noteq> None \<Longrightarrow> alternative a b s \<noteq> None"
  by (simp add: alternative_def split: option.splits)

lemma from_regex_complete:
  assumes "accepted_from_form l"
  shows "IMPORT_FROM_REGEX l \<noteq> None"
proof -
  from assms obtain ws1 g ws2 ws3 q1 p q2 semi where
    l: "l = ''import'' @ ws1 @ g @ ws2 @ from_part ws3 q1 p q2 semi"
    and ws: "spaces ws1" "spaces ws2" "spaces ws3" and q: "isQuote q1" "isQuote q2"
    and semi: "is_semi semi" and g: "\<forall>c \<in> set g. \<not> isLineTerminator c"
    and p: "\<forall>c \<in> set p. \<not> isLineTerminator c"
    unfolding accepted_from_form_def by blast
  let ?F = "ws2 @ from_part ws3 q1 p q2 semi"
  have "from_clause g (Some g) ?F = Some (g, Some g, q1, p, q2)"
    unfolding from_part_def by (rule from_clause_exact) (fact ws q semi p)+
  then have "from_clause g (Some g) ?F \<noteq> None"
    by simp
  then have "greedy (\<lambda>c. \<not> isLineTerminator c) 0 (\<lambda>g. from_clause g (Some g)) (g @ ?F) \<noteq> None"
    using g by (intro greedy_complete) simp_all
  then have "alternative (lit ''*'' (from_clause ''*'' None))
               (greedy (\<lambda>c. \<not> isLineTerminator c) 0 (\<lambda>g. from_clause g (Some g))) (g @ ?F) \<noteq> None"
    by (rule alternative_complete)
  then have "greedy isWhiteSpace 1
               (\<lambda>_. alternative (lit ''*'' (from_clause ''*'' None))
                      (greedy (\<lambda>c. \<not> isLineTerminator c) 0 (\<lambda>g. from_clause g (Some g))))
               (ws1 @ g @ ?F) \<noteq> None"
    using ws(1) by (intro greedy_complete) (auto simp: spaces_def Suc_le_eq)
  then show ?thesis
    by (simp only: l IMPORT_FROM_REGEX_def lit_append One_nat_def simp_thms)
qed

lemma default_regex_complete:
  assumes "accepted_default_form l"
  shows "IMPORT_DEFAULT_REGEX l \<noteq> None"
proof -
  from assms obtain ws1 q1 p q2 semi where
    l: "l = ''import'' @ ws1 @ q1 # p @ q2 # semi"
    and ws: "spaces ws1" and q: "isQuote q1" "isQuote q2"
    and semi: "is_semi semi" and p: "\<forall>c \<in> set p. \<not> isLineTerminator c"
    unfolding accepted_default_form_def by blast
  have "quoted_path (\<lambda>q1 p q2. (q1, p, q2)) (q1 # p @ q2 # semi) = Some (q1, p, q2)"
    by (rule quoted_path_exact) (fact q semi p)+
  then have "quoted_path (\<lambda>q1 p q2. (q1, p, q2)) (q1 # p @ q2 # semi) \<noteq> None"
    by simp
  then have "greedy isWhiteSpace 1 (\<lambda>_. quoted_path (\<lambda>q1 p q2. (q1, p, q2)))
               (ws1 @ q1 # p @ q2 # semi) \<noteq> None"
    using ws by (intro greedy_complete) (auto simp: spaces_def Suc_le_eq)
  then show ?thesis
    by (simp only: l IMPORT_DEFAULT_REGEX_def lit_append One_nat_def simp_thms)
qed

lemma from_regex_groups:
  assumes "IMPORT_FROM_REGEX l = Some (w, i, q1, p, q2)"
  shows "(w = ''*'' \<and> i = None) \<or> i = Some w"
proof -
  let ?a1 = "lit ''*'' (from_clause ''*'' None)"
  let ?g = "\<lambda>g. from_clause g (Some g)"
  let ?a2 = "greedy (\<lambda>c. \<not> isLineTerminator c) 0 ?g"
  from lit_sound [OF assms [unfolded IMPORT_FROM_REGEX_def]] obtain t0 where
    0: "greedy isWhiteSpace 1 (\<lambda>_. alternative ?a1 ?a2) t0 = Some (w, i, q1, p, q2)"
    by blast
  from greedy_spaces_sound [OF 0] obtain ws1 t1 where
    1: "alternative ?a1 ?a2 t1 = Some (w, i, q1, p, q2)"
    by blast
  from 1 consider "?a1 t1 = Some (w, i, q1, p, q2)" | "?a2 t1 = Some (w, i, q1, p, q2)"
    by (auto simp: alternative_def split: option.splits)
  then show ?thesis
  proof cases
    case 1
    from lit_sound [OF 1] obtain t where "from_clause ''*'' None t = Some (w, i, q1, p, q2)"
      by blast
    from from_clause_sound [OF this] show ?thesis
      by auto
  next
    case 2
    from greedy_sound [OF 2] obtain k where
      "from_clause (take k t1) (Some (take k t1)) (drop k t1) = Some (w, i, q1, p, q2)"
      by blast
    from from_clause_sound [OF this] show ?thesis
      by auto
  qed
qed

lemma parse_error:
  assumes "parseImportLine l = Inl e"
  shows "e = ImportError (error_text l)"
proof (cases "IMPORT_FROM_REGEX l")
  case None
  with assms show ?thesis
    by (auto simp: parseImportLine_def split: option.splits)
next
  case (Some r)
  obtain w i q1 p q2 where r: "r = (w, i, q1, p, q2)"
    by (cases r) auto
  from from_regex_groups [OF Some [unfolded r]] assms Some r show ?thesis
    by (auto simp: parseImportLine_def split: if_splits)
qed

lemma selectors_quote_free:
  assumes "selectors S sels"
  shows "quote_free S"
proof -
  from selectors_list [OF assms] obtain n rest where
    "selector_list n rest" and "S = selector_text n rest"
    by blast
  with selector_text_plain [of n rest] show ?thesis
    by (auto simp: quote_free_def plain_char_def)
qed

lemma grammar_quotes:
  assumes "matches_grammar l"
  shows "\<exists>q. filter isQuote l = [q, q]"
proof -
  have w: "filter isQuote ''import'' = []" "filter isQuote ''from'' = []"
    by (simp_all add: isQuote_def)
  from assms consider sels p where "grammar_from l sels p" | p where "grammar_default l p"
    unfolding matches_grammar_def by blast
  then show ?thesis
  proof cases
    case 1
    then obtain ws1 S ws2 ws3 q semi where
      l: "l = ''import'' @ ws1 @ S @ ws2 @ from_part ws3 q p q semi"
      and g: "gap ws1" "gap ws2" "gap ws3" and S: "selectors S sels"
      and q: "isQuote q" and p: "path_text p" and semi: "is_semi semi"
      unfolding grammar_from_def by blast
    have e: "filter isQuote ws1 = []" "filter isQuote ws2 = []" "filter isQuote ws3 = []"
      "filter isQuote S = []" "filter isQuote p = []" "filter isQuote semi = []"
      using g [THEN gap_spaces, THEN spaces_quote_free] selectors_quote_free [OF S] p
        semi_quote_free [OF semi]
      by (simp_all add: quote_free_filter path_text_def)
    have tail: "filter isQuote (q # p @ q # semi) = [q, q]"
      using q e by simp
    have "filter isQuote l
            = filter isQuote ''import'' @ filter isQuote ws1 @ filter isQuote S @ filter isQuote ws2
              @ filter isQuote ''from'' @ filter isQuote ws3 @ filter isQuote (q # p @ q # semi)"
      unfolding l from_part_def by (simp only: filter_append)
    then have "filter isQuote l = [q, q]"
      by (simp only: w e tail append_Nil)
    then show ?thesis ..
  next
    case 2
    then obtain ws1 q semi where
      l: "l = ''import'' @ ws1 @ q # p @ q # semi"
      and g: "gap ws1" and q: "isQuote q" and p: "path_text p" and semi: "is_semi semi"
      unfolding grammar_default_def by blast
    have e: "filter isQuote ws1 = []" "filter isQuote p = []" "filter isQuote semi = []"
      using g [THEN gap_spaces, THEN spaces_quote_free] p semi_quote_free [OF semi]
      by (simp_all add: quote_free_filter path_text_def)
    have tail: "filter isQuote (q # p @ q # semi) = [q, q]"
      using q e by simp
    have "filter isQuote l
            = filter isQuote ''import'' @ filter isQuote ws1 @ filter isQuote (q # p @ q # semi)"
      unfolding l by (simp only: filter_append)
    then have "filter isQuote l = [q, q]"
      by (simp only: w e tail append_Nil)
    then show ?thesis ..
  qed
qed

lemma parse_raises_iff:
  "parseImportLine l = Inl e \<longleftrightarrow>
     e = ImportError (error_text l)
     \<and> ((\<not> accepted_from_form l \<and> \<not> accepted_default_form l)
        \<or> (\<exists>w i q1 q2. IMPORT_FROM_REGEX l = Some (w, i, q1, [], q2)))"
proof
  assume a: "parseImportLine l = Inl e"
  then have e: "e = ImportError (error_text l)"
    by (rule parse_error)
  show "e = ImportError (error_text l)
     \<and> ((\<not> accepted_from_form l \<and> \<not> accepted_default_form l)
        \<or> (\<exists>w i q1 q2. IMPORT_FROM_REGEX l = Some (w, i, q1, [], q2)))"
  proof (cases "IMPORT_FROM_REGEX l")
    case None
    with a have d: "IMPORT_DEFAULT_REGEX l = None"
      by (auto simp: parseImportLine_def split: option.splits)
    from None from_regex_complete have "\<not> accepted_from_form l"
      by blast
    moreover from d default_regex_complete have "\<not> accepted_default_form l"
      by blast
    ultimately show ?thesis
      using e by simp
  next
    case (Some r)
    obtain w i q1 p q2 where r: "r = (w, i, q1, p, q2)"
      by (cases r) auto
    from a Some r from_regex_groups [OF Some [unfolded r]] have "p = []"
      by (auto simp: parseImportLine_def split: if_splits)
    with Some r e show ?thesis
      by blast
  qed
next
  assume a: "e = ImportError (error_text l)
     \<and> ((\<not> accepted_from_form l \<and> \<not> accepted_default_form l)
        \<or> (\<exists>w i q1 q2. IMPORT_FROM_REGEX l = Some (w, i, q1, [], q2)))"
  then consider "\<not> accepted_from_form l" "\<not> accepted_default_form l"
    | w i q1 q2 where "IMPORT_FROM_REGEX l = Some (w, i, q1, [], q2)"
    by blast
  then have "parseImportLine l = Inl (ImportError (error_text l))"
  proof cases
    case 1
    then show ?thesis by (rule parse_rejects)
  next
    case 2
    then show ?thesis by (simp add: parseImportLine_def)
  qed
  with a show "parseImportLine l = Inl e"
    by simp
qed

text \<open>
  C6. A line of the form \<^verbatim>\<open>import <selectors> from '<path>'\<close> parses to its selector list and
  its path, and a line of the form \<^verbatim>\<open>import '<path>'\<close> to the wildcard and its path. What the
  two regular expressions accept is written out in \<open>accepted_from_form\<close> and
  \<open>accepted_default_form\<close>: any selector text, and an opening and a closing quote that may
  differ. A line raises exactly when it has neither of these two forms, or when the first
  expression matches it with an empty path; the error is always the one whose message holds
  the line and the pattern \<^verbatim>\<open># import [Type].[Field] from [File]\<close>.
\<close>

theorem import_line_grammar:
  "(\<forall>l sels p. grammar_from l sels p
       \<longrightarrow> parseImportLine l = Inr \<lparr>m_imports = sels, m_from = p\<rparr>)
   \<and> (\<forall>l p. grammar_default l p
       \<longrightarrow> parseImportLine l = Inr \<lparr>m_imports = [''*''], m_from = p\<rparr>)
   \<and> (\<forall>l. accepted_from_form l \<longleftrightarrow> IMPORT_FROM_REGEX l \<noteq> None)
   \<and> (\<forall>l. accepted_default_form l \<longleftrightarrow> IMPORT_DEFAULT_REGEX l \<noteq> None)
   \<and> (\<forall>l. \<not> accepted_from_form l \<and> \<not> accepted_default_form l
       \<longrightarrow> parseImportLine l = Inl (ImportError (error_text l)))
   \<and> (\<forall>l e. parseImportLine l = Inl e \<longleftrightarrow>
         e = ImportError (error_text l)
         \<and> ((\<not> accepted_from_form l \<and> \<not> accepted_default_form l)
            \<or> (\<exists>w i q1 q2. IMPORT_FROM_REGEX l = Some (w, i, q1, [], q2))))
   \<and> (\<forall>l. \<exists>a b c. error_text l = a @ l @ b @ ''# import [Type].[Field] from [File]'' @ c)"
proof (intro conjI allI impI)
  fix l
  show "accepted_from_form l \<longleftrightarrow> IMPORT_FROM_REGEX l \<noteq> None"
    using from_regex_complete [of l] from_regex_accepts [of l] by blast
  show "accepted_default_form l \<longleftrightarrow> IMPORT_DEFAULT_REGEX l \<noteq> None"
    using default_regex_complete [of l] default_regex_accepts [of l] by blast
  show "\<exists>a b c. error_text l = a @ l @ b @ ''# import [Type].[Field] from [File]'' @ c"
    by (rule error_text_echo)
next
  fix l sels p assume "grammar_from l sels p"
  then show "parseImportLine l = Inr \<lparr>m_imports = sels, m_from = p\<rparr>"
    by (rule grammar_from_parses)
next
  fix l p assume "grammar_default l p"
  then show "parseImportLine l = Inr \<lparr>m_imports = [''*''], m_from = p\<rparr>"
    by (rule grammar_default_parses)
next
  fix l assume "\<not> accepted_from_form l \<and> \<not> accepted_default_form l"
  then show "parseImportLine l = Inl (ImportError (error_text l))"
    by (intro parse_rejects) simp_all
next
  fix l e
  show "parseImportLine l = Inl e \<longleftrightarrow>
         e = ImportError (error_text l)
         \<and> ((\<not> accepted_from_form l \<and> \<not> accepted_default_form l)
            \<or> (\<exists>w i q1 q2. IMPORT_FROM_REGEX l = Some (w, i, q1, [], q2)))"
    by (rule parse_raises_iff)
qed

text \<open>
  The line \<^verbatim>\<open>import * from 'a.graphql"\<close>, whose closing quote is not its opening quote, has
  neither form of the grammar and parses.
\<close>

theorem mismatched_quotes_parse:
  "\<not> matches_grammar (''import * from '' @ [CHR 0x27] @ ''a.graphql'' @ [CHR 0x22])
   \<and> parseImportLine (''import * from '' @ [CHR 0x27] @ ''a.graphql'' @ [CHR 0x22])
       = Inr \<lparr>m_imports = [''*''], m_from = ''a.graphql''\<rparr>"
proof
  have "filter isQuote (''import * from '' @ [CHR 0x27] @ ''a.graphql'' @ [CHR 0x22])
          = [CHR 0x27, CHR 0x22]"
    by (simp add: isQuote_def)
  with grammar_quotes [of "''import * from '' @ [CHR 0x27] @ ''a.graphql'' @ [CHR 0x22]"]
  show "\<not> matches_grammar (''import * from '' @ [CHR 0x27] @ ''a.graphql'' @ [CHR 0x22])"
    by auto
  have "parseImportLine (''import'' @ '' '' @ ''*'' @ '' ''
            @ from_part '' '' (CHR 0x27) ''a.graphql'' (CHR 0x22) [])
          = Inr \<lparr>m_imports = [''*''], m_from = ''a.graphql''\<rparr>"
    by (rule parse_wildcard_line)
       (simp_all add: spaces_def isWhiteSpace_def isQuote_def is_semi_def isLineTerminator_def)
  then show "parseImportLine (''import * from '' @ [CHR 0x27] @ ''a.graphql'' @ [CHR 0x22])
               = Inr \<lparr>m_imports = [''*''], m_from = ''a.graphql''\<rparr>"
    by (simp add: from_part_def)
qed

lemma grammar_from_line:
  assumes "gap ws1" and "selectors S sels" and "gap ws2" and "gap ws3"
    and "isQuote q" and "path_text p" and "is_semi semi"
  shows "grammar_from (''import'' @ ws1 @ S @ ws2 @ from_part ws3 q p q semi) sels p"
  unfolding grammar_from_def using assms by blast

theorem import_line_grammar_witness:
  "grammar_from (''import A, B.f from '' @ [CHR 0x27] @ ''x.graphql'' @ [CHR 0x27] @ '';'')
     [''A'', ''B.f''] ''x.graphql''
   \<and> parseImportLine (''import A, B.f from '' @ [CHR 0x27] @ ''x.graphql'' @ [CHR 0x27] @ '';'')
       = Inr \<lparr>m_imports = [''A'', ''B.f''], m_from = ''x.graphql''\<rparr>"
proof -
  have names: "bare_name ''A''" "bare_name ''B.f''"
    by (simp_all add: bare_name_def isWhiteSpace_def isQuote_def)
  have blank: "blanks []" "blanks '' ''" "gap '' ''"
    by (simp_all add: gap_def blanks_def isWhiteSpace_def isLineTerminator_def)
  have list: "selector_list ''A'' [(([]::string, '' ''), ''B.f'')]"
    by (simp add: selector_list_def names blank)
  have sel: "selectors (selector_text ''A'' [(([]::string, '' ''), ''B.f'')])
               (''A'' # map snd [(([]::string, '' ''), ''B.f'')])"
    unfolding selectors_def by (intro disjI2 exI conjI) (rule list refl)+
  have rest: "path_text ''x.graphql''" "is_semi '';''" "isQuote (CHR 0x27)"
    by (simp_all add: path_text_def quote_free_def is_semi_def isQuote_def isLineTerminator_def)
  have "grammar_from (''import'' @ '' '' @ selector_text ''A'' [(([]::string, '' ''), ''B.f'')] @ '' ''
          @ from_part '' '' (CHR 0x27) ''x.graphql'' (CHR 0x27) '';'')
          (''A'' # map snd [(([]::string, '' ''), ''B.f'')]) ''x.graphql''"
    by (rule grammar_from_line [OF blank(3) sel blank(3) blank(3) rest(3) rest(1) rest(2)])
  then have g: "grammar_from (''import A, B.f from '' @ [CHR 0x27] @ ''x.graphql'' @ [CHR 0x27] @ '';'')
                  [''A'', ''B.f''] ''x.graphql''"
    by (simp add: from_part_def)
  from import_line_grammar [THEN conjunct1, rule_format, OF g] g show ?thesis
    by (rule conjI [rotated])
qed

subsection \<open>The directive extractor\<close>

text \<open>\<^verbatim>\<open>lines.join(c)\<close>, the inverse of \<^verbatim>\<open>split\<close>.\<close>

fun join :: "char \<Rightarrow> string list \<Rightarrow> string" where
  "join c [] = []"
| "join c [x] = x"
| "join c (x # y # ys) = x @ c # join c (y # ys)"

text \<open>
  The import statement a line of the document stands for: the line, trimmed, begins with
  \<^verbatim>\<open># import \<close> or \<^verbatim>\<open>#import \<close>, and the statement is what follows the comment marker and the
  blank after it.
\<close>

definition directive_of :: "string \<Rightarrow> string option" where
  "directive_of l =
     (if startsWith (trim l) ''# import '' then Some (drop 2 (trim l))
      else if startsWith (trim l) ''#import '' then Some (drop 1 (trim l))
      else None)"

definition directives :: "string \<Rightarrow> string list" where
  "directives sdl =
     concat (map (\<lambda>l. case directive_of l of None \<Rightarrow> [] | Some d \<Rightarrow> [d])
               (split_on (CHR 0x0A) sdl))"

lemma split_on_not_Nil: "split_on c s \<noteq> []"
  by (induction s) (auto split: list.splits)

lemma join_Cons: "ys \<noteq> [] \<Longrightarrow> join c (x # ys) = x @ c # join c ys"
  by (cases ys) simp_all

lemma join_Cons_hd: "ys \<noteq> [] \<Longrightarrow> join c ((a # hd ys) # tl ys) = a # join c ys"
  by (cases ys; cases "tl ys") simp_all

lemma join_split_on: "join c (split_on c s) = s"
proof (induction s)
  case Nil
  show ?case by simp
next
  case (Cons x xs)
  show ?case
  proof (cases "x = c")
    case True
    then show ?thesis
      using Cons.IH by (simp add: join_Cons split_on_not_Nil)
  next
    case False
    obtain y ys where s: "split_on c xs = y # ys"
      using split_on_not_Nil [of c xs] by (cases "split_on c xs") auto
    with False Cons.IH show ?thesis
      by (cases ys) simp_all
  qed
qed

lemma split_on_lines: "l \<in> set (split_on c s) \<Longrightarrow> c \<notin> set l"
proof (induction s arbitrary: l)
  case Nil
  then show ?case by simp
next
  case (Cons x xs)
  obtain y ys where s: "split_on c xs = y # ys"
    using split_on_not_Nil [of c xs] by (cases "split_on c xs") auto
  with Cons show ?case
    by (cases "x = c") auto
qed

lemma trim_decomp:
  "\<exists>a b. l = a @ trim l @ b \<and> (\<forall>c \<in> set a. isWhiteSpace c) \<and> (\<forall>c \<in> set b. isWhiteSpace c)"
proof (intro exI conjI)
  let ?a = "takeWhile isWhiteSpace l"
  let ?m = "dropWhile isWhiteSpace l"
  let ?b = "rev (takeWhile isWhiteSpace (rev ?m))"
  have "rev ?m = takeWhile isWhiteSpace (rev ?m) @ dropWhile isWhiteSpace (rev ?m)"
    by simp
  then have "?m = rev (dropWhile isWhiteSpace (rev ?m)) @ ?b"
    by (metis rev_append rev_rev_ident)
  then have "?m = trim l @ ?b"
    by (simp add: trim_def)
  moreover have "l = ?a @ ?m"
    by simp
  ultimately show "l = ?a @ trim l @ ?b"
    by simp
  show "\<forall>c \<in> set ?a. isWhiteSpace c"
    by (auto dest: set_takeWhileD)
  show "\<forall>c \<in> set ?b. isWhiteSpace c"
    by (auto dest: set_takeWhileD)
qed

lemma trim_ends:
  assumes "trim l \<noteq> []"
  shows "\<not> isWhiteSpace (hd (trim l))" and "\<not> isWhiteSpace (last (trim l))"
proof -
  let ?m = "dropWhile isWhiteSpace l"
  let ?r = "dropWhile isWhiteSpace (rev ?m)"
  have t: "trim l = rev ?r"
    by (simp add: trim_def)
  with assms have r: "?r \<noteq> []"
    by simp
  then have "\<not> isWhiteSpace (hd ?r)"
    by (rule hd_dropWhile)
  with r show "\<not> isWhiteSpace (last (trim l))"
    by (simp add: t last_rev)
  have "rev ?m = takeWhile isWhiteSpace (rev ?m) @ ?r"
    by simp
  then have m: "?m = trim l @ rev (takeWhile isWhiteSpace (rev ?m))"
    unfolding t by (metis rev_append rev_rev_ident)
  with assms have "?m \<noteq> []"
    by (metis append_is_Nil_conv)
  then have "\<not> isWhiteSpace (hd ?m)"
    by (rule hd_dropWhile)
  moreover have "hd ?m = hd (trim l)"
    using assms by (subst m) simp
  ultimately show "\<not> isWhiteSpace (hd (trim l))"
    by simp
qed

lemma mapE_Inr:
  "mapE f xs = Inr ys \<longleftrightarrow> list_all2 (\<lambda>x y. f x = Inr y) xs ys"
proof (induction xs arbitrary: ys)
  case Nil
  show ?case by auto
next
  case (Cons x xs)
  show ?case
    by (cases ys) (auto simp: Cons.IH [symmetric] split: sum.splits)
qed

lemma mapE_Inl:
  "mapE f xs = Inl e \<longleftrightarrow>
     (\<exists>pre x post. xs = pre @ x # post \<and> (\<forall>p \<in> set pre. \<exists>y. f p = Inr y) \<and> f x = Inl e)"
proof (induction xs)
  case Nil
  show ?case by simp
next
  case (Cons a xs)
  show ?case
  proof (cases "f a")
    case (Inl e')
    show ?thesis
    proof
      assume "mapE f (a # xs) = Inl e"
      with Inl have "e' = e" by simp
      with Inl have "a # xs = [] @ a # xs \<and> (\<forall>p \<in> set []. \<exists>y. f p = Inr y) \<and> f a = Inl e"
        by simp
      then show "\<exists>pre x post. a # xs = pre @ x # post \<and> (\<forall>p \<in> set pre. \<exists>y. f p = Inr y) \<and> f x = Inl e"
        by blast
    next
      assume "\<exists>pre x post. a # xs = pre @ x # post \<and> (\<forall>p \<in> set pre. \<exists>y. f p = Inr y) \<and> f x = Inl e"
      then obtain pre x post where
        s: "a # xs = pre @ x # post" and p: "\<forall>p \<in> set pre. \<exists>y. f p = Inr y" and x: "f x = Inl e"
        by blast
      have "pre = []"
      proof (cases pre)
        case (Cons b pre')
        with s p Inl show ?thesis by auto
      qed simp
      with s x Inl show "mapE f (a # xs) = Inl e"
        by simp
    qed
  next
    case (Inr y)
    have "mapE f (a # xs) = Inl e \<longleftrightarrow> mapE f xs = Inl e"
      using Inr by (auto split: sum.splits)
    also have "\<dots> \<longleftrightarrow> (\<exists>pre x post. xs = pre @ x # post \<and> (\<forall>p \<in> set pre. \<exists>y. f p = Inr y) \<and> f x = Inl e)"
      by (rule Cons.IH)
    also have "\<dots> \<longleftrightarrow> (\<exists>pre x post. a # xs = pre @ x # post \<and> (\<forall>p \<in> set pre. \<exists>y. f p = Inr y) \<and> f x = Inl e)"
    proof
      assume "\<exists>pre x post. xs = pre @ x # post \<and> (\<forall>p \<in> set pre. \<exists>y. f p = Inr y) \<and> f x = Inl e"
      then obtain pre x post where
        "xs = pre @ x # post" and "\<forall>p \<in> set pre. \<exists>y. f p = Inr y" and "f x = Inl e"
        by blast
      with Inr have "a # xs = (a # pre) @ x # post \<and> (\<forall>p \<in> set (a # pre). \<exists>y. f p = Inr y) \<and> f x = Inl e"
        by simp
      then show "\<exists>pre x post. a # xs = pre @ x # post \<and> (\<forall>p \<in> set pre. \<exists>y. f p = Inr y) \<and> f x = Inl e"
        by blast
    next
      assume "\<exists>pre x post. a # xs = pre @ x # post \<and> (\<forall>p \<in> set pre. \<exists>y. f p = Inr y) \<and> f x = Inl e"
      then obtain pre x post where
        s: "a # xs = pre @ x # post" and p: "\<forall>p \<in> set pre. \<exists>y. f p = Inr y" and x: "f x = Inl e"
        by blast
      show "\<exists>pre x post. xs = pre @ x # post \<and> (\<forall>p \<in> set pre. \<exists>y. f p = Inr y) \<and> f x = Inl e"
      proof (cases pre)
        case Nil
        with s x Inr show ?thesis by simp
      next
        case (Cons b pre')
        with s p x have "xs = pre' @ x # post \<and> (\<forall>p \<in> set pre'. \<exists>y. f p = Inr y) \<and> f x = Inl e"
          by simp
        then show ?thesis by blast
      qed
    qed
    finally show ?thesis .
  qed
qed

lemma startsWith_iff: "startsWith s p \<longleftrightarrow> (\<exists>r. s = p @ r)"
  unfolding startsWith_def by (metis append_eq_conv_conj append_take_drop_id)

lemma strip_marker:
  assumes "t = trim l"
  shows "startsWith t ''# import '' \<Longrightarrow> trim (remove1 (CHR ''#'') t) = drop 2 t"
    and "startsWith t ''#import '' \<Longrightarrow> trim (remove1 (CHR ''#'') t) = drop 1 t"
proof -
  have ends: "\<not> isWhiteSpace (last t)" if "t \<noteq> []"
    using that trim_ends(2) [of l] assms by simp
  have sp: "isWhiteSpace (CHR '' '')" "\<not> isWhiteSpace (CHR ''i'')"
    by (simp_all add: isWhiteSpace_def)
  have body: "trim (a @ (''import '' @ r) @ []) = ''import '' @ r"
    if "t = m @ ''import '' @ r" and "\<forall>c \<in> set a. isWhiteSpace c" for m a r
  proof (rule trim_padded)
    have r: "r \<noteq> []"
    proof
      assume "r = []"
      with that(1) have "last t = CHR '' ''" and "t \<noteq> []"
        by simp_all
      with ends sp(1) show False by simp
    qed
    then have "last t = last r"
      by (simp add: that(1))
    moreover have "t \<noteq> []"
      using that(1) by simp
    ultimately show "\<not> isWhiteSpace (last (''import '' @ r))"
      using ends r by simp
    show "\<not> isWhiteSpace (hd (''import '' @ r))"
      using sp(2) by simp
  qed (use that(2) in simp_all)
  {
    assume "startsWith t ''# import ''"
    then obtain r where t: "t = ''# import '' @ r"
      unfolding startsWith_iff by blast
    have "trim ('' '' @ (''import '' @ r) @ []) = ''import '' @ r"
      by (rule body [of "''# ''"]) (simp_all add: t sp)
    then show "trim (remove1 (CHR ''#'') t) = drop 2 t"
      by (simp add: t)
  }
  {
    assume "startsWith t ''#import ''"
    then obtain r where t: "t = ''#import '' @ r"
      unfolding startsWith_iff by blast
    have "trim ([] @ (''import '' @ r) @ []) = ''import '' @ r"
      by (rule body [of "''#''"]) (simp_all add: t)
    then show "trim (remove1 (CHR ''#'') t) = drop 1 t"
      by (simp add: t)
  }
qed

lemma directive_of_iff:
  "directive_of l = Some d \<longleftrightarrow>
     (\<exists>r. trim l = ''# import '' @ r \<and> d = ''import '' @ r)
     \<or> (\<exists>r. trim l = ''#import '' @ r \<and> d = ''import '' @ r)"
proof
  assume a: "directive_of l = Some d"
  show "(\<exists>r. trim l = ''# import '' @ r \<and> d = ''import '' @ r)
     \<or> (\<exists>r. trim l = ''#import '' @ r \<and> d = ''import '' @ r)"
  proof (cases "startsWith (trim l) ''# import ''")
    case True
    then obtain r where t: "trim l = ''# import '' @ r"
      unfolding startsWith_iff by blast
    from a True have "d = drop 2 (trim l)"
      by (simp add: directive_of_def)
    with t show ?thesis by simp
  next
    case False
    with a have s: "startsWith (trim l) ''#import ''" and d: "d = drop 1 (trim l)"
      by (simp_all add: directive_of_def split: if_splits)
    from s obtain r where t: "trim l = ''#import '' @ r"
      unfolding startsWith_iff by blast
    with d show ?thesis by simp
  qed
next
  assume "(\<exists>r. trim l = ''# import '' @ r \<and> d = ''import '' @ r)
     \<or> (\<exists>r. trim l = ''#import '' @ r \<and> d = ''import '' @ r)"
  then consider r where "trim l = ''# import '' @ r" "d = ''import '' @ r"
    | r where "trim l = ''#import '' @ r" "d = ''import '' @ r"
    by blast
  then show "directive_of l = Some d"
  proof cases
    case 1
    then show ?thesis
      by (simp add: directive_of_def startsWith_def)
  next
    case 2
    then show ?thesis
      by (simp add: directive_of_def startsWith_def)
  qed
qed

lemma survivors_directives:
  "map (\<lambda>l. trim (remove1 (CHR ''#'') l))
     (filter (\<lambda>l. startsWith l ''# import '' \<or> startsWith l ''#import '') (map trim ls))
   = concat (map (\<lambda>l. case directive_of l of None \<Rightarrow> [] | Some d \<Rightarrow> [d]) ls)"
proof (induction ls)
  case Nil
  show ?case by simp
next
  case (Cons l ls)
  note sm = strip_marker [OF refl, of l]
  show ?case
  proof (cases "startsWith (trim l) ''# import ''")
    case True
    with sm(1) Cons.IH show ?thesis
      by (simp add: directive_of_def)
  next
    case False
    show ?thesis
    proof (cases "startsWith (trim l) ''#import ''")
      case True
      with False sm(2) Cons.IH show ?thesis
        by (simp add: directive_of_def)
    next
      case no: False
      with False Cons.IH show ?thesis
        by (simp add: directive_of_def)
    qed
  qed
qed

lemma parseSDL_directives: "parseSDL sdl = mapE parseImportLine (directives sdl)"
  by (simp only: parseSDL_def directives_def survivors_directives)

lemma no_directives:
  assumes "\<forall>l \<in> set ls. directive_of l = None"
  shows "concat (map (\<lambda>l. case directive_of l of None \<Rightarrow> [] | Some d \<Rightarrow> [d]) ls) = []"
  using assms by (induction ls) simp_all

text \<open>
  C9. The lines of the document are the pieces between its line feeds. A line stands for an
  import statement when, trimmed of the white space at both ends, it begins with
  \<^verbatim>\<open># import \<close> or \<^verbatim>\<open>#import \<close>; the statement is the trimmed line without the comment marker
  and the blank after it. \<^verbatim>\<open>parseSDL\<close> parses these statements in the order of their lines:
  it returns the records of all of them, or the error of the first one that does not parse.
  A document without such a line gives the empty sequence.
\<close>

theorem directive_extraction:
  "parseSDL sdl = mapE parseImportLine (directives sdl)
   \<and> join (CHR 0x0A) (split_on (CHR 0x0A) sdl) = sdl
   \<and> (\<forall>l \<in> set (split_on (CHR 0x0A) sdl). CHR 0x0A \<notin> set l)
   \<and> (\<forall>l. \<exists>a b. l = a @ trim l @ b
           \<and> (\<forall>c \<in> set a. isWhiteSpace c) \<and> (\<forall>c \<in> set b. isWhiteSpace c)
           \<and> (trim l \<noteq> [] \<longrightarrow> \<not> isWhiteSpace (hd (trim l)) \<and> \<not> isWhiteSpace (last (trim l))))
   \<and> (\<forall>l d. directive_of l = Some d \<longleftrightarrow>
         (\<exists>r. trim l = ''# import '' @ r \<and> d = ''import '' @ r)
         \<or> (\<exists>r. trim l = ''#import '' @ r \<and> d = ''import '' @ r))
   \<and> (\<forall>rs. parseSDL sdl = Inr rs \<longleftrightarrow>
         list_all2 (\<lambda>d r. parseImportLine d = Inr r) (directives sdl) rs)
   \<and> (\<forall>e. parseSDL sdl = Inl e \<longleftrightarrow>
         (\<exists>pre d post. directives sdl = pre @ d # post
            \<and> (\<forall>x \<in> set pre. \<exists>r. parseImportLine x = Inr r) \<and> parseImportLine d = Inl e))
   \<and> ((\<forall>l \<in> set (split_on (CHR 0x0A) sdl). directive_of l = None) \<longrightarrow> parseSDL sdl = Inr [])"
proof (intro conjI allI impI ballI)
  show "parseSDL sdl = mapE parseImportLine (directives sdl)"
    by (rule parseSDL_directives)
  show "join (CHR 0x0A) (split_on (CHR 0x0A) sdl) = sdl"
    by (rule join_split_on)
next
  fix l assume "l \<in> set (split_on (CHR 0x0A) sdl)"
  then show "CHR 0x0A \<notin> set l"
    by (rule split_on_lines)
next
  fix l
  from trim_decomp [of l] obtain a b where
    "l = a @ trim l @ b" "\<forall>c \<in> set a. isWhiteSpace c" "\<forall>c \<in> set b. isWhiteSpace c"
    by blast
  moreover have "trim l \<noteq> [] \<longrightarrow> \<not> isWhiteSpace (hd (trim l)) \<and> \<not> isWhiteSpace (last (trim l))"
    using trim_ends [of l] by blast
  ultimately show "\<exists>a b. l = a @ trim l @ b
           \<and> (\<forall>c \<in> set a. isWhiteSpace c) \<and> (\<forall>c \<in> set b. isWhiteSpace c)
           \<and> (trim l \<noteq> [] \<longrightarrow> \<not> isWhiteSpace (hd (trim l)) \<and> \<not> isWhiteSpace (last (trim l)))"
    by blast
next
  fix l d
  show "directive_of l = Some d \<longleftrightarrow>
         (\<exists>r. trim l = ''# import '' @ r \<and> d = ''import '' @ r)
         \<or> (\<exists>r. trim l = ''#import '' @ r \<and> d = ''import '' @ r)"
    by (rule directive_of_iff)
next
  fix rs
  show "parseSDL sdl = Inr rs \<longleftrightarrow>
         list_all2 (\<lambda>d r. parseImportLine d = Inr r) (directives sdl) rs"
    unfolding parseSDL_directives by (rule mapE_Inr)
next
  fix e
  show "parseSDL sdl = Inl e \<longleftrightarrow>
         (\<exists>pre d post. directives sdl = pre @ d # post
            \<and> (\<forall>x \<in> set pre. \<exists>r. parseImportLine x = Inr r) \<and> parseImportLine d = Inl e)"
    unfolding parseSDL_directives by (rule mapE_Inl)
next
  assume "\<forall>l \<in> set (split_on (CHR 0x0A) sdl). directive_of l = None"
  then have "directives sdl = []"
    unfolding directives_def by (rule no_directives)
  then show "parseSDL sdl = Inr []"
    by (simp add: parseSDL_directives)
qed

text \<open>A document of two lines, the first an import statement with blanks before the marker.\<close>

definition two_lines :: string where
  "two_lines = ''  # import A from '' @ [CHR 0x27] @ ''a.graphql'' @ [CHR 0x27, CHR 0x0A]
               @ ''type B { a: A }''"

theorem directive_extraction_witness:
  "directives two_lines = [''import A from '' @ [CHR 0x27] @ ''a.graphql'' @ [CHR 0x27]]
   \<and> parseSDL two_lines = Inr [\<lparr>m_imports = [''A''], m_from = ''a.graphql''\<rparr>]"
proof -
  have d: "directives two_lines = [''import A from '' @ [CHR 0x27] @ ''a.graphql'' @ [CHR 0x27]]"
    by (simp add: directives_def two_lines_def directive_of_def trim_def startsWith_def
        isWhiteSpace_def)
  have names: "bare_name ''A''"
    by (simp add: bare_name_def isWhiteSpace_def isQuote_def)
  have blank: "gap '' ''"
    by (simp add: gap_def blanks_def isWhiteSpace_def isLineTerminator_def)
  have sel: "selectors (selector_text ''A'' []) (''A'' # map snd ([] :: ((string \<times> string) \<times> string) list))"
    unfolding selectors_def
    by (intro disjI2 exI conjI) (simp_all add: selector_list_def names)
  have rest: "path_text ''a.graphql''" "is_semi []" "isQuote (CHR 0x27)"
    by (simp_all add: path_text_def quote_free_def is_semi_def isQuote_def isLineTerminator_def)
  have "grammar_from (''import'' @ '' '' @ selector_text ''A'' [] @ '' ''
          @ from_part '' '' (CHR 0x27) ''a.graphql'' (CHR 0x27) [])
          (''A'' # map snd ([] :: ((string \<times> string) \<times> string) list)) ''a.graphql''"
    by (rule grammar_from_line [OF blank sel blank blank rest(3) rest(1) rest(2)])
  then have "grammar_from (''import A from '' @ [CHR 0x27] @ ''a.graphql'' @ [CHR 0x27])
               [''A''] ''a.graphql''"
    by (simp add: from_part_def)
  then have p: "parseImportLine (''import A from '' @ [CHR 0x27] @ ''a.graphql'' @ [CHR 0x27])
                  = Inr \<lparr>m_imports = [''A''], m_from = ''a.graphql''\<rparr>"
    by (rule grammar_from_parses)
  from directive_extraction [of two_lines, THEN conjunct1]
  have "parseSDL two_lines = Inr [\<lparr>m_imports = [''A''], m_from = ''a.graphql''\<rparr>]"
    by (simp only: d mapE.simps p sum.case)
  with d show ?thesis
    by (rule conjI)
qed

end
